theory Spec2Isabelle
  imports Main "HOL-Library.Word"
begin

unbundle bit_operations_syntax

section \<open>The String class: a view of the bytes that remain\<close>

text \<open>
  \<open>String\<close> in MicrosoftDemangle.cpp is a pointer \<open>p\<close> and a length \<open>len\<close> into the
  caller's buffer. The model keeps the \<open>len\<close> bytes that start at \<open>p\<close> as a list of
  bytes; \<open>trim\<close> and \<open>get\<close> drop from the front. The program receives \<open>argv[1]\<close> with
  \<open>strlen\<close> as its length, so an input never holds a NUL byte.
\<close>

definition startswith_c :: "string \<Rightarrow> char \<Rightarrow> bool" where
  "startswith_c s c = (0 < length s \<and> hd s = c)"

definition startswith :: "string \<Rightarrow> string \<Rightarrow> bool" where
  "startswith s pat = (length pat \<le> length s \<and> take (length pat) s = pat)"

definition trim :: "nat \<Rightarrow> string \<Rightarrow> string" where
  "trim n s = drop n s"

definition substr2 :: "string \<Rightarrow> nat \<Rightarrow> string" where
  "substr2 s off = drop off s"

text \<open>
  \<open>get\<close> returns \<open>*p++\<close> converted from \<open>char\<close> to \<open>int\<close>, or \<open>-1\<close> at the end. With
  a signed \<open>char\<close> (x86) a byte above 127 becomes negative, so the byte 255 reads as
  \<open>-1\<close> as well. \<open>unget\<close> steps back over the byte \<open>x\<close> that \<open>get\<close> has just read,
  unless the value is \<open>-1\<close>.
\<close>

definition char_int :: "char \<Rightarrow> int" where
  "char_int c = (if (of_char c :: nat) < 128 then int (of_char c) else int (of_char c) - 256)"

definition get :: "string \<Rightarrow> int \<times> string" where
  "get s = (case s of [] \<Rightarrow> (- 1, []) | x # xs \<Rightarrow> (char_int x, xs))"

definition unget :: "int \<Rightarrow> string \<Rightarrow> string \<Rightarrow> string" where
  "unget c prev s = (if c = - 1 then s else prev)"

definition is_digit :: "char \<Rightarrow> bool" where
  "is_digit c = (char_int (CHR ''0'') \<le> char_int c \<and> char_int c \<le> char_int (CHR ''9''))"

definition is_hex :: "char \<Rightarrow> bool" where
  "is_hex c = (char_int (CHR ''A'') \<le> char_int c \<and> char_int c \<le> char_int (CHR ''P''))"

definition isalpha :: "char \<Rightarrow> bool" where
  "isalpha c = ((char_int (CHR ''A'') \<le> char_int c \<and> char_int c \<le> char_int (CHR ''Z'')) \<or>
                (char_int (CHR ''a'') \<le> char_int c \<and> char_int c \<le> char_int (CHR ''z'')))"

section \<open>The data model\<close>

text \<open>Storage classes and function classes are bit flags in a byte.\<close>

definition Const :: "8 word" where "Const = 1"
definition Volatile :: "8 word" where "Volatile = 2"
definition Far :: "8 word" where "Far = 4"

definition Public :: "8 word" where "Public = 1"
definition Protected :: "8 word" where "Protected = 2"
definition Private :: "8 word" where "Private = 4"
definition Global :: "8 word" where "Global = 8"
definition Static :: "8 word" where "Static = 16"
definition Virtual :: "8 word" where "Virtual = 32"
definition FFar :: "8 word" where "FFar = 64"

datatype CallingConv = Cdecl | Pascal | Thiscall | Stdcall | Fastcall | Regcall

datatype PrimTy =
    Unknown | NoneTy | Function | Ptr | Ref | Array
  | Struct | UnionTy | Class | Enum
  | Void | BoolTy | CharTy | Schar | Uchar | Short | Ushort | IntTy | Uint | Long | Ulong
  | Llong | Ullong | Wchar | Float | Double | Ldouble

text \<open>
  \<open>struct Type\<close>. The nodes that \<open>ptr\<close> and \<open>params\<close> point to are each handed out once
  by \<open>alloc\<close> and stored in one place, so the pointers form a tree and the model holds the
  pointee itself; a null \<open>ptr\<close> is \<open>None\<close>. This is the program as long as every node lies
  in \<open>type_buffer\<close>, that is for the first 20 nodes (see \<open>in_type_buffer\<close> below).
\<close>

datatype Type = Type
  (prim: PrimTy)
  (sclass: "8 word")
  (ptr: "Type option")
  (calling_conv: CallingConv)
  (func_class: "8 word")
  (len: "32 word")
  (name: "string list")
  (params: "Type list")

text \<open>
  A default-initialised \<open>Type\<close>: \<open>sclass = 0\<close>, \<open>ptr = nullptr\<close>, no name, no
  parameters. C++ leaves \<open>prim\<close>, \<open>calling_conv\<close>, \<open>func_class\<close> and \<open>len\<close>
  indeterminate; the model fixes a value for them. The parser writes \<open>prim\<close> (and \<open>len\<close>
  of an array) on every path that ends without an error, and the printer runs only then.
\<close>

definition Type_default :: Type where
  "Type_default = Type Unknown 0 None Cdecl 0 0 [] []"

definition set_prim :: "PrimTy \<Rightarrow> Type \<Rightarrow> Type" where
  "set_prim v t = Type v (sclass t) (ptr t) (calling_conv t) (func_class t) (len t) (name t) (params t)"

definition set_sclass :: "8 word \<Rightarrow> Type \<Rightarrow> Type" where
  "set_sclass v t = Type (prim t) v (ptr t) (calling_conv t) (func_class t) (len t) (name t) (params t)"

definition set_ptr :: "Type \<Rightarrow> Type \<Rightarrow> Type" where
  "set_ptr v t = Type (prim t) (sclass t) (Some v) (calling_conv t) (func_class t) (len t) (name t) (params t)"

definition set_calling_conv :: "CallingConv \<Rightarrow> Type \<Rightarrow> Type" where
  "set_calling_conv v t = Type (prim t) (sclass t) (ptr t) v (func_class t) (len t) (name t) (params t)"

definition set_func_class :: "8 word \<Rightarrow> Type \<Rightarrow> Type" where
  "set_func_class v t = Type (prim t) (sclass t) (ptr t) (calling_conv t) v (len t) (name t) (params t)"

definition set_len :: "32 word \<Rightarrow> Type \<Rightarrow> Type" where
  "set_len v t = Type (prim t) (sclass t) (ptr t) (calling_conv t) (func_class t) v (name t) (params t)"

definition set_name :: "string list \<Rightarrow> Type \<Rightarrow> Type" where
  "set_name v t = Type (prim t) (sclass t) (ptr t) (calling_conv t) (func_class t) (len t) v (params t)"

definition set_params :: "Type list \<Rightarrow> Type \<Rightarrow> Type" where
  "set_params v t = Type (prim t) (sclass t) (ptr t) (calling_conv t) (func_class t) (len t) (name t) v"

text \<open>
  The members of \<open>class Demangler\<close> that the parser uses. \<open>error\<close> is the error string,
  empty while there is no error. \<open>type_index\<close> counts the nodes handed out by \<open>alloc\<close>;
  \<open>type_buffer2\<close> is the vector of dynamically allocated nodes.
\<close>

record Demangler =
  input :: string
  error :: string
  type :: Type
  symbol :: "string list"
  type_index :: nat
  type_buffer2 :: "Type list"
  repeated_names :: "string list"

definition Demangler_init :: "string \<Rightarrow> Demangler" where
  "Demangler_init s = \<lparr> input = s, error = [], type = Type_default, symbol = [],
     type_index = 0, type_buffer2 = [], repeated_names = [] \<rparr>"

text \<open>
  \<open>alloc\<close> returns \<open>type_buffer + type_index++\<close>: the index of the slot, with no
  test against the 20 slots of \<open>type_buffer\<close>. \<open>type_buffer_slot\<close> is the indexing of
  that array: there is a slot only below 20.
\<close>

definition type_buffer_size :: nat where
  "type_buffer_size = 20"

definition alloc :: "Demangler \<Rightarrow> nat \<times> Demangler" where
  "alloc st = (type_index st, st\<lparr>type_index := type_index st + 1\<rparr>)"

definition type_buffer_slot :: "nat \<Rightarrow> nat option" where
  "type_buffer_slot i = (if i < type_buffer_size then Some i else None)"

text \<open>
  The node of index 20 and every later one lie behind \<open>type_buffer\<close>, in the bytes of the
  members declared after it (\<open>type_index\<close>, \<open>type_buffer2\<close>, \<open>repeated_names\<close>): writing
  such a node overwrites them, and C++ leaves the behaviour undefined. The model does not
  follow the program there: it goes on with fresh nodes. So the model is the program on the
  runs that take at most 20 nodes, those that end in a state with \<open>in_type_buffer\<close>
  (\<open>type_index\<close> only grows), and a statement about every input is made for these runs.
\<close>

definition in_type_buffer :: "Demangler \<Rightarrow> bool" where
  "in_type_buffer st = (type_index st \<le> type_buffer_size)"

definition consume :: "string \<Rightarrow> Demangler \<Rightarrow> bool \<times> Demangler" where
  "consume s st =
     (if \<not> startswith (input st) s then (False, st)
      else (True, st\<lparr>input := trim (length s) (input st)\<rparr>))"

section \<open>Numbers, strings and names\<close>

text \<open>
  The \<open>for\<close> loop of \<open>read_number\<close>: scan from index \<open>i\<close> with the value \<open>ret\<close> read
  so far. \<open>Some (i, ret)\<close> when an \<open>@\<close> is found at index \<open>i\<close>; \<open>None\<close> when the loop
  leaves by \<open>break\<close> or by the end of the input. \<open>ret\<close> is an \<open>int32_t\<close>:
  \<open>(ret << 4) + (c - 'A')\<close> is computed on 32 bits.
\<close>

fun read_number_loop :: "string \<Rightarrow> nat \<Rightarrow> 32 word \<Rightarrow> (nat \<times> 32 word) option" where
  "read_number_loop [] i ret = None"
| "read_number_loop (c # cs) i ret =
     (if c = CHR ''@'' then Some (i, ret)
      else if is_hex c
        then read_number_loop cs (i + 1)
               (push_bit 4 ret + word_of_int (char_int c - char_int (CHR ''A'')))
      else None)"

definition read_number :: "Demangler \<Rightarrow> 32 word \<times> Demangler" where
  "read_number st0 =
     (let (neg, st) = consume ''?'' st0 in
      if 0 < length (input st) \<and> is_digit (hd (input st)) then
        (let ret = word_of_int (char_int (hd (input st)) - char_int (CHR ''0'') + 1) in
         (if neg then - ret else ret, st\<lparr>input := trim 1 (input st)\<rparr>))
      else
        (case read_number_loop (input st) 0 0 of
           Some (i, ret) \<Rightarrow> (if neg then - ret else ret, st\<lparr>input := trim (i + 1) (input st)\<rparr>)
         | None \<Rightarrow> (0, st\<lparr>error := ''bad number''\<rparr>)))"

text \<open>The loop of \<open>read_string\<close>: the index of the first \<open>@\<close>, counted from \<open>i\<close>.\<close>

fun read_string_loop :: "string \<Rightarrow> nat \<Rightarrow> nat option" where
  "read_string_loop [] i = None"
| "read_string_loop (c # cs) i =
     (if c \<noteq> CHR ''@'' then read_string_loop cs (i + 1) else Some i)"

definition read_string :: "Demangler \<Rightarrow> string \<times> Demangler" where
  "read_string st =
     (case read_string_loop (input st) 0 of
        Some i \<Rightarrow> (take i (input st), st\<lparr>input := trim (i + 1) (input st)\<rparr>)
      | None \<Rightarrow> ([], st\<lparr>error := ''read_string: missing '' @ [CHR 0x27] @ ''@'' @ [CHR 0x27]
                                      @ '': '' @ input st\<rparr>))"

text \<open>
  The \<open>while\<close> loop of \<open>read_name\<close>, with the vector \<open>v\<close> built so far. The loop has no
  bound of its own, so the model counts iterations down from a fuel \<open>n\<close>: \<open>None\<close> says
  that \<open>n\<close> iterations were not enough.
\<close>

fun read_name_loop :: "nat \<Rightarrow> string list \<Rightarrow> Demangler \<Rightarrow> (string list \<times> Demangler) option" where
  "read_name_loop 0 v st = None"
| "read_name_loop (Suc n) v st =
     (case consume ''@'' st of
        (True, st1) \<Rightarrow> Some (v, st1)
      | (False, _) \<Rightarrow>
          if 0 < length (input st) \<and> is_digit (hd (input st)) then
            (let i = nat (char_int (hd (input st)) - char_int (CHR ''0'')) in
             if i \<ge> length (repeated_names st)
               then Some ([], st\<lparr>error := ''name reference too large: '' @ input st\<rparr>)
             else read_name_loop n (v @ [repeated_names st ! i]) (st\<lparr>input := trim 1 (input st)\<rparr>))
          else
            (let (s, st2) = read_string st;
                 st3 = (if length (repeated_names st2) < 10
                        then st2\<lparr>repeated_names := repeated_names st2 @ [s]\<rparr> else st2)
             in read_name_loop n (v @ [s]) st3))"

definition read_name :: "nat \<Rightarrow> Demangler \<Rightarrow> (string list \<times> Demangler) option" where
  "read_name n st = read_name_loop n [] st"

text \<open>
  The same loop, one pass at a time. \<open>read_name_pass\<close> is the loop test followed by the
  loop body: \<open>Inl\<close> when \<open>read_name\<close> returns in this pass, \<open>Inr\<close> with the vector and the
  state at the next loop test otherwise. \<open>read_name_passes k\<close> makes \<open>k\<close> passes, or fewer
  if the function returns before. It is total: it gives the state of the loop after \<open>k\<close>
  passes also when the loop never ends.
\<close>

definition read_name_pass ::
  "string list \<Rightarrow> Demangler \<Rightarrow> (string list \<times> Demangler) + (string list \<times> Demangler)" where
  "read_name_pass v st =
     (case consume ''@'' st of
        (True, st1) \<Rightarrow> Inl (v, st1)
      | (False, _) \<Rightarrow>
          if 0 < length (input st) \<and> is_digit (hd (input st)) then
            (let i = nat (char_int (hd (input st)) - char_int (CHR ''0'')) in
             if i \<ge> length (repeated_names st)
               then Inl ([], st\<lparr>error := ''name reference too large: '' @ input st\<rparr>)
             else Inr (v @ [repeated_names st ! i], st\<lparr>input := trim 1 (input st)\<rparr>))
          else
            (let (s, st2) = read_string st;
                 st3 = (if length (repeated_names st2) < 10
                        then st2\<lparr>repeated_names := repeated_names st2 @ [s]\<rparr> else st2)
             in Inr (v @ [s], st3)))"

fun read_name_passes ::
  "nat \<Rightarrow> string list \<Rightarrow> Demangler \<Rightarrow> (string list \<times> Demangler) + (string list \<times> Demangler)" where
  "read_name_passes 0 v st = Inr (v, st)"
| "read_name_passes (Suc k) v st =
     (case read_name_pass v st of
        Inl r \<Rightarrow> Inl r
      | Inr (v', st') \<Rightarrow> read_name_passes k v' st')"

section \<open>Single-byte tables\<close>

definition ord :: "char \<Rightarrow> int" where
  "ord c = char_int c"

definition func_class_table :: "int \<Rightarrow> 8 word option" where
  "func_class_table c =
     (if c = ord (CHR ''A'') then Some Private
      else if c = ord (CHR ''B'') then Some (Private OR FFar)
      else if c = ord (CHR ''C'') then Some (Private OR Static)
      else if c = ord (CHR ''D'') then Some (Private OR Static)
      else if c = ord (CHR ''E'') then Some (Private OR Virtual)
      else if c = ord (CHR ''F'') then Some (Private OR Virtual)
      else if c = ord (CHR ''I'') then Some Protected
      else if c = ord (CHR ''J'') then Some (Protected OR FFar)
      else if c = ord (CHR ''K'') then Some (Protected OR Static)
      else if c = ord (CHR ''L'') then Some (Protected OR Static OR FFar)
      else if c = ord (CHR ''M'') then Some (Protected OR Virtual)
      else if c = ord (CHR ''N'') then Some (Protected OR Virtual OR FFar)
      else if c = ord (CHR ''Q'') then Some Public
      else if c = ord (CHR ''R'') then Some (Public OR FFar)
      else if c = ord (CHR ''S'') then Some (Public OR Static)
      else if c = ord (CHR ''T'') then Some (Public OR Static OR FFar)
      else if c = ord (CHR ''U'') then Some (Public OR Virtual)
      else if c = ord (CHR ''V'') then Some (Public OR Virtual OR FFar)
      else if c = ord (CHR ''Y'') then Some Global
      else if c = ord (CHR ''Z'') then Some (Global OR FFar)
      else None)"

definition read_func_class :: "Demangler \<Rightarrow> 8 word \<times> Demangler" where
  "read_func_class st =
     (let (c, rest) = get (input st) in
      case func_class_table c of
        Some v \<Rightarrow> (v, st\<lparr>input := rest\<rparr>)
      | None \<Rightarrow>
          (let s = unget c (input st) rest in
           (0, st\<lparr>input := s, error := ''unknown func class: '' @ s\<rparr>)))"

definition calling_conv_table :: "int \<Rightarrow> CallingConv option" where
  "calling_conv_table c =
     (if c = ord (CHR ''A'') then Some Cdecl
      else if c = ord (CHR ''C'') then Some Pascal
      else if c = ord (CHR ''E'') then Some Thiscall
      else if c = ord (CHR ''G'') then Some Stdcall
      else if c = ord (CHR ''I'') then Some Fastcall
      else None)"

definition read_calling_conv :: "Demangler \<Rightarrow> CallingConv \<times> Demangler" where
  "read_calling_conv st =
     (let (c, rest) = get (input st) in
      case calling_conv_table c of
        Some v \<Rightarrow> (v, st\<lparr>input := rest\<rparr>)
      | None \<Rightarrow>
          (let s = unget c (input st) rest in
           (Cdecl, st\<lparr>input := s, error := ''unknown calling convention: '' @ s\<rparr>)))"

definition storage_class_table :: "int \<Rightarrow> 8 word option" where
  "storage_class_table c =
     (if c = ord (CHR ''A'') then Some 0
      else if c = ord (CHR ''B'') then Some Const
      else if c = ord (CHR ''C'') then Some Volatile
      else if c = ord (CHR ''D'') then Some (Const OR Volatile)
      else if c = ord (CHR ''E'') then Some Far
      else if c = ord (CHR ''F'') then Some (Const OR Far)
      else if c = ord (CHR ''G'') then Some (Volatile OR Far)
      else if c = ord (CHR ''H'') then Some (Const OR Volatile OR Far)
      else None)"

definition read_storage_class :: "Demangler \<Rightarrow> 8 word \<times> Demangler" where
  "read_storage_class st =
     (let (c, rest) = get (input st) in
      case storage_class_table c of
        Some v \<Rightarrow> (v, st\<lparr>input := rest\<rparr>)
      | None \<Rightarrow> (0, st\<lparr>input := unget c (input st) rest\<rparr>))"

definition read_storage_class_for_return :: "Demangler \<Rightarrow> 8 word \<times> Demangler" where
  "read_storage_class_for_return st =
     (if fst (consume ''?A'' st) then (0, snd (consume ''?A'' st))
      else if fst (consume ''?B'' st) then (Const, snd (consume ''?B'' st))
      else if fst (consume ''?C'' st) then (Volatile, snd (consume ''?C'' st))
      else if fst (consume ''?D'' st) then (Const OR Volatile, snd (consume ''?D'' st))
      else (0, st))"

definition prim_type_table :: "int \<Rightarrow> PrimTy option" where
  "prim_type_table c =
     (if c = ord (CHR ''X'') then Some Void
      else if c = ord (CHR ''D'') then Some CharTy
      else if c = ord (CHR ''C'') then Some Schar
      else if c = ord (CHR ''E'') then Some Uchar
      else if c = ord (CHR ''F'') then Some Short
      else if c = ord (CHR ''G'') then Some Ushort
      else if c = ord (CHR ''H'') then Some IntTy
      else if c = ord (CHR ''I'') then Some Uint
      else if c = ord (CHR ''J'') then Some Long
      else if c = ord (CHR ''K'') then Some Ulong
      else if c = ord (CHR ''M'') then Some Float
      else if c = ord (CHR ''N'') then Some Double
      else if c = ord (CHR ''O'') then Some Ldouble
      else None)"

definition read_prim_type :: "Demangler \<Rightarrow> PrimTy \<times> Demangler" where
  "read_prim_type st =
     (let (c, rest) = get (input st) in
      case prim_type_table c of
        Some v \<Rightarrow> (v, st\<lparr>input := rest\<rparr>)
      | None \<Rightarrow>
          (let st0 = st\<lparr>input := unget c (input st) rest\<rparr> in
           if fst (consume ''_N'' st0) then (BoolTy, snd (consume ''_N'' st0))
           else if fst (consume ''_J'' st0) then (Llong, snd (consume ''_J'' st0))
           else if fst (consume ''_K'' st0) then (Ullong, snd (consume ''_K'' st0))
           else if fst (consume ''_W'' st0) then (Wchar, snd (consume ''_W'' st0))
           else (Unknown, st0\<lparr>error := ''unknown primitive type: '' @ input st0\<rparr>)))"

section \<open>The type reader\<close>

text \<open>
  Decimal text of an \<open>int\<close>, as \<open>std::to_string\<close> and \<open>operator<<\<close> produce it.
\<close>

fun to_string_nat :: "nat \<Rightarrow> string" where
  "to_string_nat n =
     (if n < 10 then [char_of (48 + n)]
      else to_string_nat (n div 10) @ [char_of (48 + n mod 10)])"

definition to_string :: "int \<Rightarrow> string" where
  "to_string i = (if i < 0 then CHR ''-'' # to_string_nat (nat (- i)) else to_string_nat (nat i))"

text \<open>
  The \<open>for\<close> loop of the array case of \<open>read_var_type\<close>: \<open>k\<close> iterations are left, each
  reads one length and takes one node from \<open>alloc\<close>. It returns the lengths in order.
\<close>

fun read_array_dims :: "nat \<Rightarrow> Demangler \<Rightarrow> 32 word list \<times> Demangler" where
  "read_array_dims 0 st = ([], st)"
| "read_array_dims (Suc k) st =
     (let (l, st1) = read_number st;
          (a, st2) = alloc st1;
          (ls, st3) = read_array_dims k st2
      in (l # ls, st3))"

text \<open>
  The chain of nodes the loop leaves behind: the node \<open>ty\<close> it started at becomes an
  array of the first length, every further length sits in a fresh node, and \<open>elem\<close> is
  the last fresh node, which \<open>read_var_type\<close> then fills.
\<close>

fun array_chain :: "Type \<Rightarrow> 32 word list \<Rightarrow> Type \<Rightarrow> Type" where
  "array_chain ty [] elem = elem"
| "array_chain ty (l # ls) elem =
     set_ptr (array_chain Type_default ls elem) (set_len l (set_prim Array ty))"

text \<open>The \<open>$$C\<close> block of the array case; it writes \<open>sclass\<close> of the outermost node.\<close>

definition read_array_qualifiers :: "Type \<Rightarrow> Demangler \<Rightarrow> Type \<times> Demangler" where
  "read_array_qualifiers ty st =
     (if fst (consume ''$$C'' st) then
        (let st1 = snd (consume ''$$C'' st) in
         if fst (consume ''B'' st1) then (set_sclass Const ty, snd (consume ''B'' st1))
         else if fst (consume ''C'' st1) then (set_sclass (Const OR Volatile) ty, snd (consume ''C'' st1))
         else if fst (consume ''D'' st1) then (set_sclass (Const OR Volatile) ty, snd (consume ''D'' st1))
         else if \<not> fst (consume ''A'' st1)
           then (ty, st1\<lparr>error := ''unkonwn storage class: '' @ input st1\<rparr>)
         else (ty, snd (consume ''A'' st1)))
      else (ty, st))"

text \<open>
  \<open>read_var_type\<close>, \<open>read_class\<close> and their two \<open>while\<close> loops call each other. The
  first argument is the fuel: every call and every loop iteration uses one, and \<open>None\<close>
  says that the fuel was not enough. \<open>read_var_type n ty st\<close> returns the node \<open>ty\<close> as
  the call leaves it.
\<close>

fun read_var_type :: "nat \<Rightarrow> Type \<Rightarrow> Demangler \<Rightarrow> (Type \<times> Demangler) option"
and read_fn_params :: "nat \<Rightarrow> Type list \<Rightarrow> Demangler \<Rightarrow> (Type list \<times> Demangler) option"
and read_class :: "nat \<Rightarrow> PrimTy \<Rightarrow> Type \<Rightarrow> Demangler \<Rightarrow> (Type \<times> Demangler) option"
and read_class_params :: "nat \<Rightarrow> Type list \<Rightarrow> Demangler \<Rightarrow> (Type list \<times> Demangler) option"
where
  "read_var_type 0 ty st = None"
| "read_var_type (Suc n) ty st =
     (if fst (consume ''T'' st) then read_class n UnionTy ty (snd (consume ''T'' st))
      else if fst (consume ''U'' st) then read_class n Struct ty (snd (consume ''U'' st))
      else if fst (consume ''V'' st) then read_class n Class ty (snd (consume ''V'' st))
      else if fst (consume ''W4'' st) then
        (case read_name n (snd (consume ''W4'' st)) of
           None \<Rightarrow> None
         | Some (v, st1) \<Rightarrow> Some (set_name v (set_prim Enum ty), st1))
      else if fst (consume ''P6A'' st) then
        (let st1 = snd (alloc (snd (consume ''P6A'' st)));
             st2 = snd (alloc st1)
         in case read_var_type n Type_default st2 of
              None \<Rightarrow> None
            | Some (ret, st3) \<Rightarrow>
                (case read_fn_params n [] st3 of
                   None \<Rightarrow> None
                 | Some (ps, st4) \<Rightarrow>
                     Some (set_ptr (set_params ps (set_ptr ret (set_prim Function Type_default)))
                             (set_prim Ptr ty), st4)))
      else if fst (consume ''A'' st) then
        (let st1 = snd (consume ''E'' (snd (consume ''A'' st)));
             st2 = snd (alloc st1);
             (sc, st3) = read_storage_class st2
         in case read_var_type n (set_sclass sc Type_default) st3 of
              None \<Rightarrow> None
            | Some (p, st4) \<Rightarrow> Some (set_ptr p (set_prim Ref ty), st4))
      else if fst (consume ''P'' st) then
        (let st1 = snd (consume ''E'' (snd (consume ''P'' st)));
             st2 = snd (alloc st1);
             (sc, st3) = read_storage_class st2
         in case read_var_type n (set_sclass sc Type_default) st3 of
              None \<Rightarrow> None
            | Some (p, st4) \<Rightarrow> Some (set_ptr p (set_prim Ptr ty), st4))
      else if fst (consume ''Q'' st) then
        (let st1 = snd (consume ''E'' (snd (consume ''Q'' st)));
             st2 = snd (alloc st1);
             (sc, st3) = read_storage_class st2
         in case read_var_type n (set_sclass sc Type_default) st3 of
              None \<Rightarrow> None
            | Some (p, st4) \<Rightarrow> Some (set_ptr p (set_sclass Const (set_prim Ptr ty)), st4))
      else if fst (consume ''Y'' st) then
        (let (dimension, st1) = read_number (snd (consume ''Y'' st)) in
         if sint dimension \<le> 0 then
           Some (ty, st1\<lparr>error := ''invalid array dimension: '' @ to_string (sint dimension)\<rparr>)
         else
           (let (ls, st2) = read_array_dims (nat (sint dimension)) st1;
                (ty1, st3) = read_array_qualifiers ty st2
            in case read_var_type n Type_default st3 of
                 None \<Rightarrow> None
               | Some (elem, st4) \<Rightarrow> Some (array_chain ty1 ls elem, st4)))
      else
        (let (p, st1) = read_prim_type st in Some (set_prim p ty, st1)))"
| "read_fn_params 0 ps st = None"
| "read_fn_params (Suc n) ps st =
     (if error st \<noteq> [] then Some (ps, st)
      else if fst (consume ''@Z'' st) then Some (ps, snd (consume ''@Z'' st))
      else if fst (consume ''Z'' st) then Some (ps, snd (consume ''Z'' st))
      else
        (case read_var_type n Type_default (snd (alloc st)) of
           None \<Rightarrow> None
         | Some (tp, st1) \<Rightarrow> read_fn_params n (ps @ [tp]) st1))"
| "read_class 0 p ty st = None"
| "read_class (Suc n) p ty st =
     (if fst (consume ''?$'' st) then
        (let (s, st1) = read_string (snd (consume ''?$'' st)) in
         case read_class_params n [] st1 of
           None \<Rightarrow> None
         | Some (ps, st2) \<Rightarrow>
             Some (set_params (params ty @ ps) (set_name (name ty @ [s]) (set_prim p ty)), st2))
      else
        (case read_name n st of
           None \<Rightarrow> None
         | Some (v, st1) \<Rightarrow> Some (set_name v (set_prim p ty), st1)))"
| "read_class_params 0 ps st = None"
| "read_class_params (Suc n) ps st =
     (if error st \<noteq> [] then Some (ps, st)
      else if fst (consume ''@'' st) then Some (ps, snd (consume ''@'' st))
      else
        (case read_var_type n Type_default (snd (alloc st)) of
           None \<Rightarrow> None
         | Some (tp, st1) \<Rightarrow> read_class_params n (ps @ [tp]) st1))"

section \<open>The symbol parser\<close>

text \<open>
  \<open>read_func_return_type\<close>: an \<open>@\<close> stands for a constructor or destructor, which has
  no return type.
\<close>

definition read_func_return_type :: "nat \<Rightarrow> Type \<Rightarrow> Demangler \<Rightarrow> (Type \<times> Demangler) option" where
  "read_func_return_type n ty st =
     (if fst (consume ''@'' st) then Some (set_prim NoneTy ty, snd (consume ''@'' st))
      else
        (case read_var_type n ty st of
           None \<Rightarrow> None
         | Some (ty1, st1) \<Rightarrow> Some (ty1, snd (consume ''@'' st1))))"

text \<open>
  The two parameter loops of \<open>parse\<close>: they stop at an error, at the end of the input
  and at the byte \<open>stop\<close> (\<open>@\<close> for a free function, \<open>Z\<close> for a member function).
\<close>

fun parse_params :: "nat \<Rightarrow> char \<Rightarrow> Type list \<Rightarrow> Demangler \<Rightarrow> (Type list \<times> Demangler) option" where
  "parse_params 0 stop ps st = None"
| "parse_params (Suc n) stop ps st =
     (if error st = [] \<and> input st \<noteq> [] \<and> \<not> startswith_c (input st) stop then
        (case read_var_type n Type_default (snd (alloc st)) of
           None \<Rightarrow> None
         | Some (tp, st1) \<Rightarrow> parse_params n stop (ps @ [tp]) st1)
      else Some (ps, st))"

definition parse_var :: "nat \<Rightarrow> Demangler \<Rightarrow> Demangler option" where
  "parse_var n st =
     (case read_var_type n (type st) st of
        None \<Rightarrow> None
      | Some (ty, st1) \<Rightarrow> Some (st1\<lparr>type := ty\<rparr>))"

definition parse_func :: "nat \<Rightarrow> Demangler \<Rightarrow> Demangler option" where
  "parse_func n st =
     (let (cc, st1) = read_calling_conv st;
          st2 = snd (alloc st1);
          (sc, st3) = read_storage_class_for_return st2
      in case read_var_type n (set_sclass sc Type_default) st3 of
           None \<Rightarrow> None
         | Some (ret, st4) \<Rightarrow>
             (case parse_params n (CHR ''@'') [] st4 of
                None \<Rightarrow> None
              | Some (ps, st5) \<Rightarrow>
                  Some (st5\<lparr>type := set_params (params (type st) @ ps)
                          (set_ptr ret (set_calling_conv cc (set_prim Function (type st))))\<rparr>)))"

definition parse_member_func :: "nat \<Rightarrow> Demangler \<Rightarrow> Demangler option" where
  "parse_member_func n st =
     (let (fc, st1) = read_func_class st;
          st2 = snd (consume ''E'' st1);
          (cc, st3) = read_calling_conv st2;
          st4 = snd (alloc st3);
          (sc, st5) = read_storage_class st4
      in case read_func_return_type n (set_sclass sc Type_default) st5 of
           None \<Rightarrow> None
         | Some (ret, st6) \<Rightarrow>
             (case parse_params n (CHR ''Z'') [] st6 of
                None \<Rightarrow> None
              | Some (ps, st7) \<Rightarrow>
                  Some (st7\<lparr>type := set_params (params (type st) @ ps)
                          (set_ptr ret (set_calling_conv cc (set_func_class fc
                             (set_prim Function (type st)))))\<rparr>)))"

text \<open>
  \<open>Demangler::parse\<close>. When the input does not start with \<open>?\<close> the source stores the
  input as the symbol and sets \<open>type.prim = Unknown\<close>, and then goes on to
  \<open>symbol = read_name()\<close> like for every other input: there is no \<open>return\<close>.
\<close>

definition parse :: "nat \<Rightarrow> Demangler \<Rightarrow> Demangler option" where
  "parse n st0 =
     (let st1 = (if \<not> fst (consume ''?'' st0)
                 then st0\<lparr>symbol := symbol st0 @ [input st0], type := set_prim Unknown (type st0)\<rparr>
                 else snd (consume ''?'' st0))
      in case read_name n st1 of
           None \<Rightarrow> None
         | Some (v, st2) \<Rightarrow>
             (let st3 = st2\<lparr>symbol := v\<rparr> in
              if fst (consume ''3'' st3) then parse_var n (snd (consume ''3'' st3))
              else if fst (consume ''Y'' st3) then parse_func n (snd (consume ''Y'' st3))
              else parse_member_func n st3))"

section \<open>The printer\<close>

definition write_space :: "string \<Rightarrow> string" where
  "write_space os = (if os \<noteq> [] \<and> isalpha (last os) then os @ '' '' else os)"

fun write_name_loop :: "nat \<Rightarrow> string list \<Rightarrow> string \<Rightarrow> string" where
  "write_name_loop 0 nm os = os"
| "write_name_loop (Suc i) nm os = write_name_loop i nm (os @ nm ! Suc i @ ''::'')"

definition write_name :: "string list \<Rightarrow> string \<Rightarrow> string" where
  "write_name nm os0 =
     (if nm = [] then os0
      else
        (let os = write_name_loop (length nm - 1) nm (write_space os0) in
         if startswith (nm ! 0) ''?0''
           then os @ substr2 (nm ! 0) 2 @ ''::'' @ substr2 (nm ! 0) 2
         else if startswith (nm ! 0) ''?1''
           then os @ substr2 (nm ! 0) 2 @ ''::~'' @ substr2 (nm ! 0) 2
         else os @ nm ! 0))"

definition prim_text :: "PrimTy \<Rightarrow> string" where
  "prim_text p =
     (case p of
        Void \<Rightarrow> ''void'' | BoolTy \<Rightarrow> ''bool'' | CharTy \<Rightarrow> ''char''
      | Schar \<Rightarrow> ''signed char'' | Uchar \<Rightarrow> ''unsigned char''
      | Short \<Rightarrow> ''short'' | Ushort \<Rightarrow> ''unsigned short''
      | IntTy \<Rightarrow> ''int'' | Uint \<Rightarrow> ''unsigned int''
      | Long \<Rightarrow> ''long'' | Ulong \<Rightarrow> ''unsigned long''
      | Llong \<Rightarrow> ''long long'' | Ullong \<Rightarrow> ''unsigned long long''
      | Wchar \<Rightarrow> ''wchar_t'' | Float \<Rightarrow> ''float'' | Double \<Rightarrow> ''double''
      | Ldouble \<Rightarrow> ''long double''
      | _ \<Rightarrow> [])"

text \<open>
  \<open>write_pre\<close>, \<open>write_post\<close>, \<open>write_params\<close> and \<open>write_class\<close> append to the stream
  \<open>os\<close>, which the model passes along. They dereference \<open>ty.ptr\<close> without a test; the
  model returns \<open>None\<close> where the pointer is null.
\<close>

function write_pre :: "Type \<Rightarrow> string \<Rightarrow> string option"
and write_post :: "Type \<Rightarrow> string \<Rightarrow> string option"
and write_params :: "Type \<Rightarrow> string \<Rightarrow> string option"
and write_params_loop :: "Type list \<Rightarrow> nat \<Rightarrow> string \<Rightarrow> string option"
and write_class :: "string \<Rightarrow> Type \<Rightarrow> string \<Rightarrow> string option"
where
  "write_pre ty os =
     (if prim ty = Function then
        (case ptr ty of None \<Rightarrow> None | Some p \<Rightarrow> write_pre p os)
      else
        (case
           (if prim ty = Unknown \<or> prim ty = NoneTy then Some os
            else if prim ty = Ptr \<or> prim ty = Ref then
              (case ptr ty of
                 None \<Rightarrow> None
               | Some p \<Rightarrow>
                   (case write_pre p os of
                      None \<Rightarrow> None
                    | Some os1 \<Rightarrow>
                        Some ((if prim p = Function \<or> prim p = Array then os1 @ ''('' else os1)
                              @ (if prim ty = Ptr then ''*'' else ''&''))))
            else if prim ty = Array then
              (case ptr ty of None \<Rightarrow> None | Some p \<Rightarrow> write_pre p os)
            else if prim ty = Struct then write_class ''struct'' ty os
            else if prim ty = UnionTy then write_class ''union'' ty os
            else if prim ty = Class then write_class ''class'' ty os
            else if prim ty = Enum then Some (write_name (name ty) (os @ ''enum ''))
            else Some (os @ prim_text (prim ty)))
         of
           None \<Rightarrow> None
         | Some os2 \<Rightarrow>
             Some (if sclass ty AND Const \<noteq> 0 then write_space os2 @ ''const'' else os2)))"
| "write_post ty os =
     (if prim ty = Function then
        (case write_params ty (os @ ''('') of None \<Rightarrow> None | Some os1 \<Rightarrow> Some (os1 @ '')''))
      else if prim ty = Ptr \<or> prim ty = Ref then
        (case ptr ty of
           None \<Rightarrow> None
         | Some p \<Rightarrow>
             write_post p (if prim p = Function \<or> prim p = Array then os @ '')'' else os))
      else if prim ty = Array then
        (case ptr ty of
           None \<Rightarrow> None
         | Some p \<Rightarrow> write_post p (os @ ''['' @ to_string (sint (len ty)) @ '']''))
      else Some os)"
| "write_params ty os = write_params_loop (params ty) 0 os"
| "write_params_loop [] i os = Some os"
| "write_params_loop (p # ps) i os =
     (case write_pre p (if i \<noteq> 0 then os @ '','' else os) of
        None \<Rightarrow> None
      | Some os1 \<Rightarrow>
          (case write_post p os1 of
             None \<Rightarrow> None
           | Some os2 \<Rightarrow> write_params_loop ps (i + 1) os2))"
| "write_class kw ty os =
     (let os1 = write_name (name ty) (os @ kw @ '' '') in
      if params ty \<noteq> [] then
        (case write_params ty (os1 @ ''<'') of None \<Rightarrow> None | Some os2 \<Rightarrow> Some (os2 @ ''>''))
      else Some os1)"
  by pat_completeness auto

termination
proof -
  have p: "size q < size ty" if "ptr ty = Some q" for ty q :: Type
    using that by (cases ty) simp
  have q: "size_list size (params ty) < size ty" for ty :: Type
    by (cases ty) simp
  show ?thesis
    by (relation "measure (\<lambda>x. case x of
          Inl (Inl (ty, os)) \<Rightarrow> 3 * size ty + 2
        | Inl (Inr (ty, os)) \<Rightarrow> 3 * size ty + 2
        | Inr (Inl (ty, os)) \<Rightarrow> 3 * size ty
        | Inr (Inr (Inl (ps, i, os))) \<Rightarrow> 3 * size_list size ps
        | Inr (Inr (Inr (kw, ty, os))) \<Rightarrow> 3 * size ty + 1)")
      (auto dest: p simp: q less_Suc_eq_le)
qed

text \<open>\<open>Demangler::str\<close>, on an empty stream.\<close>

definition str :: "Demangler \<Rightarrow> string option" where
  "str d =
     (case write_pre (type d) [] of
        None \<Rightarrow> None
      | Some os1 \<Rightarrow> write_post (type d) (write_name (symbol d) os1))"

text \<open>
  What \<open>main\<close> does with its argument: parse it; with an error, report the error
  (\<open>Inl\<close>); without, print the declaration (\<open>Inr\<close>). \<open>None\<close> says that the fuel \<open>n\<close> did
  not take the parser to its end (or that the printer met a null pointer).
\<close>

definition demangle :: "nat \<Rightarrow> string \<Rightarrow> (string + string) option" where
  "demangle n s =
     (case parse n (Demangler_init s) of
        None \<Rightarrow> None
      | Some d \<Rightarrow>
          if error d \<noteq> [] then Some (Inl (error d))
          else map_option Inr (str d))"

section \<open>Notions of the specification\<close>

text \<open>
  The value of a decimal digit, and the base-16 value of a run of the digits
  \<open>A\<close> (0) to \<open>P\<close> (15), as an unbounded integer: what section 4.2 of the specification
  calls the number that the run encodes.
\<close>

definition digit_value :: "char \<Rightarrow> int" where
  "digit_value c = char_int c - char_int (CHR ''0'')"

fun hex_value_acc :: "int \<Rightarrow> string \<Rightarrow> int" where
  "hex_value_acc v [] = v"
| "hex_value_acc v (c # cs) = hex_value_acc (16 * v + (char_int c - char_int (CHR ''A''))) cs"

definition hex_value :: "string \<Rightarrow> int" where
  "hex_value hs = hex_value_acc 0 hs"

text \<open>
  A property of the parser state is stable when no write that the parser makes can undo
  it: a move of the cursor, a node taken from \<open>alloc\<close> (\<open>type_index\<close> grows by one), an
  error message stored, a result stored in \<open>type\<close> or \<open>symbol\<close>, and a name appended to a
  table that has fewer than ten entries.
\<close>

definition stable :: "(Demangler \<Rightarrow> bool) \<Rightarrow> bool" where
  "stable P =
     ((\<forall>st x. P st \<longrightarrow> P (st\<lparr>input := x\<rparr>)) \<and>
      (\<forall>st. P st \<longrightarrow> P (st\<lparr>type_index := type_index st + 1\<rparr>)) \<and>
      (\<forall>st e. P st \<longrightarrow> e \<noteq> [] \<longrightarrow> P (st\<lparr>error := e\<rparr>)) \<and>
      (\<forall>st t. P st \<longrightarrow> P (st\<lparr>type := t\<rparr>)) \<and>
      (\<forall>st v. P st \<longrightarrow> P (st\<lparr>symbol := v\<rparr>)) \<and>
      (\<forall>st s. P st \<longrightarrow> length (repeated_names st) < 10 \<longrightarrow>
                P (st\<lparr>repeated_names := repeated_names st @ [s]\<rparr>)))"






text \<open>
  The state with further bytes \<open>r\<close> behind the input, and an input \<open>i\<close> that ends
  inside the literal \<open>s\<close>: \<open>consume s\<close> fails on it only because bytes are missing.
\<close>

definition more_input :: "string \<Rightarrow> Demangler \<Rightarrow> Demangler" where
  "more_input r st = st\<lparr>input := input st @ r\<rparr>"

definition short_of :: "string \<Rightarrow> string \<Rightarrow> bool" where
  "short_of i s = (length i < length s \<and> take (length i) s = i)"

text \<open>
  A variable symbol: a mangled name (it begins with \<open>?\<close>) whose name path is followed
  by the body tag \<open>3\<close>.
\<close>

definition is_variable_symbol :: "nat \<Rightarrow> string \<Rightarrow> bool" where
  "is_variable_symbol n s =
     (startswith s ''?'' \<and>
      (case read_name n (snd (consume ''?'' (Demangler_init s))) of
         None \<Rightarrow> False
       | Some (v, st) \<Rightarrow> fst (consume ''3'' (st\<lparr>symbol := v\<rparr>))))"

text \<open>
  The structural invariants of section 3.3 of the specification, for a node and all the
  nodes below it: a function, pointer, reference or array node has a pointee.
\<close>

fun wf_type :: "Type \<Rightarrow> bool" where
  "wf_type (Type pr sc p cc fc l nm ps) =
     ((pr \<in> {Function, Ptr, Ref, Array} \<longrightarrow> p \<noteq> None) \<and>
      (\<forall>q \<in> set_option p. wf_type q) \<and> (\<forall>q \<in> set ps. wf_type q))"

section \<open>The cursor\<close>

lemma consume_True:
  "startswith (input st) s \<Longrightarrow> consume s st = (True, st\<lparr>input := trim (length s) (input st)\<rparr>)"
  by (simp add: consume_def)

lemma consume_False: "\<not> startswith (input st) s \<Longrightarrow> consume s st = (False, st)"
  by (simp add: consume_def)

lemma startswith_Cons1: "startswith (x # xs) [c] = (x = c)"
  by (simp add: startswith_def)

lemma startswith_Nil1: "startswith [] [c] = False"
  by (simp add: startswith_def)

section \<open>Numbers\<close>

lemma is_hex_not_at: "is_hex c \<Longrightarrow> c \<noteq> CHR ''@''"
  by (auto simp: is_hex_def char_int_def)

lemma is_digit_not_question: "is_digit d \<Longrightarrow> d \<noteq> CHR ''?''"
  by (auto simp: is_digit_def char_int_def split: if_splits)

lemma digit_value_range: "is_digit d \<Longrightarrow> 0 \<le> digit_value d \<and> digit_value d \<le> 9"
  by (auto simp: is_digit_def digit_value_def char_int_def split: if_splits)

lemma read_number_loop_hex:
  "list_all is_hex hs \<Longrightarrow>
   read_number_loop (hs @ CHR ''@'' # rest) i (word_of_int v)
     = Some (i + length hs, word_of_int (hex_value_acc v hs))"
proof (induction hs arbitrary: i v)
  case Nil
  then show ?case by simp
next
  case (Cons c cs)
  from Cons.prems have hc: "is_hex c" and hcs: "list_all is_hex cs"
    by simp_all
  have e: "push_bit 4 (word_of_int v :: 32 word) + word_of_int (char_int c - char_int CHR ''A'')
           = word_of_int (16 * v + (char_int c - char_int CHR ''A''))"
    by (simp add: push_bit_eq_mult)
  have "read_number_loop ((c # cs) @ CHR ''@'' # rest) i (word_of_int v)
        = read_number_loop (cs @ CHR ''@'' # rest) (i + 1)
            (word_of_int (16 * v + (char_int c - char_int CHR ''A'')))"
    unfolding e [symmetric] using hc is_hex_not_at [OF hc]
    by (simp only: append_Cons read_number_loop.simps if_True if_False)
  also have "\<dots> = Some (i + 1 + length cs,
      word_of_int (hex_value_acc (16 * v + (char_int c - char_int CHR ''A'')) cs))"
    by (rule Cons.IH [OF hcs])
  finally show ?case by simp
qed

lemma hex_run_not_digit:
  "list_all is_hex hs \<Longrightarrow>
   \<not> (0 < length (hs @ CHR ''@'' # rest) \<and> is_digit (hd (hs @ CHR ''@'' # rest)))"
  by (cases hs) (auto simp: is_hex_def is_digit_def char_int_def split: if_splits)

lemma hex_run_not_question:
  "list_all is_hex hs \<Longrightarrow> \<not> startswith (hs @ CHR ''@'' # rest) ''?''"
  by (cases hs) (auto simp: is_hex_def char_int_def startswith_def split: if_splits)

lemma read_number_digit:
  assumes "is_digit d"
  shows "read_number (st\<lparr>input := d # rest\<rparr>)
           = (word_of_int (digit_value d + 1), st\<lparr>input := rest\<rparr>)"
  using assms is_digit_not_question [OF assms]
  by (simp add: read_number_def digit_value_def trim_def consume_False startswith_Cons1)

lemma read_number_neg_digit:
  assumes "is_digit d"
  shows "read_number (st\<lparr>input := CHR ''?'' # d # rest\<rparr>)
           = (- word_of_int (digit_value d + 1), st\<lparr>input := rest\<rparr>)"
  using assms
  by (simp add: read_number_def digit_value_def trim_def consume_True startswith_Cons1)

lemma read_number_hex:
  assumes "list_all is_hex hs"
  shows "read_number (st\<lparr>input := hs @ CHR ''@'' # rest\<rparr>)
           = (word_of_int (hex_value hs), st\<lparr>input := rest\<rparr>)"
  using hex_run_not_digit [OF assms, of rest] hex_run_not_question [OF assms, of rest]
    read_number_loop_hex [OF assms, of rest 0 0]
  by (simp add: read_number_def hex_value_def trim_def consume_False)

lemma read_number_neg_hex:
  assumes "list_all is_hex hs"
  shows "read_number (st\<lparr>input := CHR ''?'' # hs @ CHR ''@'' # rest\<rparr>)
           = (- word_of_int (hex_value hs), st\<lparr>input := rest\<rparr>)"
  using hex_run_not_digit [OF assms, of rest]
    read_number_loop_hex [OF assms, of rest 0 0]
  by (simp add: read_number_def hex_value_def trim_def consume_True startswith_Cons1)

lemma sint_word_of_int_32:
  "- (2 ^ 31) \<le> v \<Longrightarrow> v < 2 ^ 31 \<Longrightarrow> sint (word_of_int v :: 32 word) = v"
  by (simp add: sint_sbintrunc' signed_take_bit_int_eq_self)

lemma sint_neg_word_of_int_32:
  "- (2 ^ 31) < v \<Longrightarrow> v < 2 ^ 31 \<Longrightarrow> sint (- word_of_int v :: 32 word) = - v"
  using sint_word_of_int_32 [of "- v"] by simp

lemma hex_value_acc_nonneg: "list_all is_hex hs \<Longrightarrow> 0 \<le> v \<Longrightarrow> 0 \<le> hex_value_acc v hs"
  by (induction hs arbitrary: v) (auto simp: is_hex_def char_int_def split: if_splits)

lemma hex_value_nonneg: "list_all is_hex hs \<Longrightarrow> 0 \<le> hex_value hs"
  by (simp add: hex_value_def hex_value_acc_nonneg)

text \<open>
  Claim C6, as the code has it. A decimal digit \<open>d\<close> reads as \<open>d + 1\<close>. A run of the hex
  digits \<open>A\<close> to \<open>P\<close> closed by \<open>@\<close> reads as its base-16 value computed in an
  \<open>int32_t\<close>, that is, as the value modulo \<open>2 ^ 32\<close>; it is the base-16 value itself
  when that is below \<open>2 ^ 31\<close>. A leading \<open>?\<close> negates. In each case the cursor ends
  behind the number and nothing else of the state changes.
\<close>

theorem read_number_encodings:
  "(is_digit d \<longrightarrow>
      sint (fst (read_number (st\<lparr>input := d # rest\<rparr>))) = digit_value d + 1 \<and>
      snd (read_number (st\<lparr>input := d # rest\<rparr>)) = st\<lparr>input := rest\<rparr> \<and>
      sint (fst (read_number (st\<lparr>input := CHR ''?'' # d # rest\<rparr>))) = - (digit_value d + 1) \<and>
      snd (read_number (st\<lparr>input := CHR ''?'' # d # rest\<rparr>)) = st\<lparr>input := rest\<rparr>) \<and>
   (list_all is_hex hs \<longrightarrow>
      fst (read_number (st\<lparr>input := hs @ CHR ''@'' # rest\<rparr>)) = word_of_int (hex_value hs) \<and>
      snd (read_number (st\<lparr>input := hs @ CHR ''@'' # rest\<rparr>)) = st\<lparr>input := rest\<rparr> \<and>
      fst (read_number (st\<lparr>input := CHR ''?'' # hs @ CHR ''@'' # rest\<rparr>))
        = - word_of_int (hex_value hs) \<and>
      snd (read_number (st\<lparr>input := CHR ''?'' # hs @ CHR ''@'' # rest\<rparr>)) = st\<lparr>input := rest\<rparr>) \<and>
   (list_all is_hex hs \<and> hex_value hs < 2 ^ 31 \<longrightarrow>
      sint (fst (read_number (st\<lparr>input := hs @ CHR ''@'' # rest\<rparr>))) = hex_value hs \<and>
      sint (fst (read_number (st\<lparr>input := CHR ''?'' # hs @ CHR ''@'' # rest\<rparr>))) = - hex_value hs)"
proof (intro conjI impI)
  assume d: "is_digit d"
  have r: "- (2 ^ 31) < digit_value d + 1" "digit_value d + 1 < 2 ^ 31"
    using digit_value_range [OF d] by simp_all
  show "sint (fst (read_number (st\<lparr>input := d # rest\<rparr>))) = digit_value d + 1"
    using r by (simp only: read_number_digit [OF d] fst_conv) (rule sint_word_of_int_32, simp_all)
  show "snd (read_number (st\<lparr>input := d # rest\<rparr>)) = st\<lparr>input := rest\<rparr>"
    by (simp add: read_number_digit [OF d])
  show "sint (fst (read_number (st\<lparr>input := CHR ''?'' # d # rest\<rparr>))) = - (digit_value d + 1)"
    using r by (simp only: read_number_neg_digit [OF d] fst_conv) (rule sint_neg_word_of_int_32, simp_all)
  show "snd (read_number (st\<lparr>input := CHR ''?'' # d # rest\<rparr>)) = st\<lparr>input := rest\<rparr>"
    by (simp add: read_number_neg_digit [OF d])
next
  assume h: "list_all is_hex hs"
  show "fst (read_number (st\<lparr>input := hs @ CHR ''@'' # rest\<rparr>)) = word_of_int (hex_value hs)"
    by (simp add: read_number_hex [OF h])
  show "snd (read_number (st\<lparr>input := hs @ CHR ''@'' # rest\<rparr>)) = st\<lparr>input := rest\<rparr>"
    by (simp add: read_number_hex [OF h])
  show "fst (read_number (st\<lparr>input := CHR ''?'' # hs @ CHR ''@'' # rest\<rparr>))
        = - word_of_int (hex_value hs)"
    by (simp add: read_number_neg_hex [OF h])
  show "snd (read_number (st\<lparr>input := CHR ''?'' # hs @ CHR ''@'' # rest\<rparr>)) = st\<lparr>input := rest\<rparr>"
    by (simp add: read_number_neg_hex [OF h])
next
  assume "list_all is_hex hs \<and> hex_value hs < 2 ^ 31"
  then have h: "list_all is_hex hs" and b: "hex_value hs < 2 ^ 31" by simp_all
  have n: "0 \<le> hex_value hs" by (rule hex_value_nonneg [OF h])
  show "sint (fst (read_number (st\<lparr>input := hs @ CHR ''@'' # rest\<rparr>))) = hex_value hs"
    using n b by (simp only: read_number_hex [OF h] fst_conv) (rule sint_word_of_int_32, simp_all)
next
  assume "list_all is_hex hs \<and> hex_value hs < 2 ^ 31"
  then have h: "list_all is_hex hs" and b: "hex_value hs < 2 ^ 31" by simp_all
  have n: "0 \<le> hex_value hs" by (rule hex_value_nonneg [OF h])
  show "sint (fst (read_number (st\<lparr>input := CHR ''?'' # hs @ CHR ''@'' # rest\<rparr>))) = - hex_value hs"
    using n b by (simp only: read_number_neg_hex [OF h] fst_conv) (rule sint_neg_word_of_int_32, simp_all)
qed

theorem read_number_encodings_witness:
  "is_digit (CHR ''0'') \<and> is_digit (CHR ''9'') \<and> list_all is_hex ''BA'' \<and> hex_value ''BA'' < 2 ^ 31 \<and>
   sint (fst (read_number (Demangler_init ''0''))) = 1 \<and>
   sint (fst (read_number (Demangler_init ''9''))) = 10 \<and>
   sint (fst (read_number (Demangler_init ''BA@''))) = 16 \<and>
   sint (fst (read_number (Demangler_init ''?BA@''))) = - 16"
proof -
  have d0: "is_digit (CHR ''0'')" and d9: "is_digit (CHR ''9'')"
    by (simp_all add: is_digit_def char_int_def)
  have h: "list_all is_hex ''BA''"
    by (simp add: is_hex_def char_int_def)
  have v: "hex_value ''BA'' = 16"
    by (simp add: hex_value_def char_int_def)
  have i: "Demangler_init []\<lparr>input := s\<rparr> = Demangler_init s" for s
    by (simp add: Demangler_init_def)
  show ?thesis
    using read_number_encodings [where d = "CHR ''0''" and st = "Demangler_init []" and rest = "[]" and hs = "''BA''"]
      read_number_encodings [where d = "CHR ''9''" and st = "Demangler_init []" and rest = "[]" and hs = "''BA''"]
      d0 d9 h v
    by (simp add: i digit_value_def char_int_def)
qed

text \<open>
  The run \<open>BAAAAAAAA\<close> has the base-16 value \<open>2 ^ 32\<close>, and \<open>read_number\<close> returns 0
  for it.
\<close>

theorem read_number_wraps:
  "sint (fst (read_number (Demangler_init ''BAAAAAAAA@''))) \<noteq> hex_value ''BAAAAAAAA''"
  by code_simp

text \<open>
  Claim C7. The grammar above \<open>read_number\<close> asks for at least one hex digit before the
  \<open>@\<close>. The loop does not: on an \<open>@\<close> alone it returns 0, consumes the \<open>@\<close> and
  leaves the error as it was.
\<close>

theorem read_number_empty_run:
  "read_number (st\<lparr>input := CHR ''@'' # rest\<rparr>) = (0, st\<lparr>input := rest\<rparr>)"
  by (simp add: read_number_def consume_False startswith_Cons1 is_digit_def char_int_def trim_def)


section \<open>Properties that every read keeps\<close>

lemma stable_input: "stable P \<Longrightarrow> P st \<Longrightarrow> P (st\<lparr>input := x\<rparr>)"
  by (simp add: stable_def)

lemma stable_type_index: "stable P \<Longrightarrow> P st \<Longrightarrow> P (st\<lparr>type_index := type_index st + 1\<rparr>)"
  by (simp add: stable_def)

lemma stable_error: "stable P \<Longrightarrow> P st \<Longrightarrow> e \<noteq> [] \<Longrightarrow> P (st\<lparr>error := e\<rparr>)"
  by (simp add: stable_def)

lemma stable_type: "stable P \<Longrightarrow> P st \<Longrightarrow> P (st\<lparr>type := t\<rparr>)"
  by (simp add: stable_def)

lemma stable_symbol: "stable P \<Longrightarrow> P st \<Longrightarrow> P (st\<lparr>symbol := v\<rparr>)"
  by (simp add: stable_def)

lemma stable_repeated_names:
  "stable P \<Longrightarrow> P st \<Longrightarrow> length (repeated_names st) < 10 \<Longrightarrow>
   P (st\<lparr>repeated_names := repeated_names st @ [s]\<rparr>)"
  by (simp add: stable_def)

lemma stable_consume: "stable P \<Longrightarrow> P st \<Longrightarrow> P (snd (consume s st))"
  by (simp add: consume_def stable_input)

lemma stable_alloc: "stable P \<Longrightarrow> P st \<Longrightarrow> P (snd (alloc st))"
  unfolding alloc_def snd_conv by (rule stable_type_index)

lemma stable_read_number: "stable P \<Longrightarrow> P st \<Longrightarrow> P (snd (read_number st))"
  by (auto simp: read_number_def consume_def Let_def stable_input stable_error
      split: option.splits)

lemma stable_read_string: "stable P \<Longrightarrow> P st \<Longrightarrow> P (snd (read_string st))"
  by (auto simp: read_string_def stable_input stable_error split: option.splits)

lemma stable_read_storage_class: "stable P \<Longrightarrow> P st \<Longrightarrow> P (snd (read_storage_class st))"
  by (auto simp: read_storage_class_def stable_input split: option.splits prod.splits)

lemma stable_read_prim_type: "stable P \<Longrightarrow> P st \<Longrightarrow> P (snd (read_prim_type st))"
  by (auto simp: read_prim_type_def Let_def stable_input stable_error stable_consume
      split: option.splits prod.splits)

lemma stable_read_func_class: "stable P \<Longrightarrow> P st \<Longrightarrow> P (snd (read_func_class st))"
  by (auto simp: read_func_class_def Let_def stable_input stable_error
      split: option.splits prod.splits)

lemma stable_read_calling_conv: "stable P \<Longrightarrow> P st \<Longrightarrow> P (snd (read_calling_conv st))"
  by (auto simp: read_calling_conv_def Let_def stable_input stable_error
      split: option.splits prod.splits)

lemma stable_read_storage_class_for_return:
  "stable P \<Longrightarrow> P st \<Longrightarrow> P (snd (read_storage_class_for_return st))"
  by (simp add: read_storage_class_for_return_def stable_consume)

lemma stable_read_array_qualifiers:
  "stable P \<Longrightarrow> P st \<Longrightarrow> P (snd (read_array_qualifiers ty st))"
  by (simp add: read_array_qualifiers_def Let_def stable_consume stable_error)

lemma stable_read_array_dims: "stable P \<Longrightarrow> P st \<Longrightarrow> P (snd (read_array_dims k st))"
  by (induction k arbitrary: st)
     (simp_all add: split_beta Let_def stable_read_number stable_alloc)

lemma stable_read_name_loop:
  "stable P \<Longrightarrow> P st \<Longrightarrow> read_name_loop n v st = Some r \<Longrightarrow> P (snd r)"
proof (induction n arbitrary: v st)
  case 0
  then show ?case by simp
next
  case (Suc n)
  show ?case
  proof (cases "fst (consume ''@'' st)")
    case True
    with Suc.prems show ?thesis
      using stable_consume [OF Suc.prems(1,2), of "''@''"]
      by (auto split: prod.splits)
  next
    case False
    show ?thesis
    proof (cases "0 < length (input st) \<and> is_digit (hd (input st))")
      case True
      with False Suc.prems show ?thesis
        by (auto simp: Let_def stable_error stable_input split: prod.splits if_splits
            dest!: Suc.IH [rotated 2])
    next
      case d: False
      have a: "P (snd (read_string st))"
        by (rule stable_read_string [OF Suc.prems(1,2)])
      from False d Suc.prems(3) show ?thesis
        by (auto simp: Let_def split_beta a stable_repeated_names [OF Suc.prems(1) a]
            split: prod.splits if_splits
            dest!: Suc.IH [OF Suc.prems(1), rotated])
    qed
  qed
qed


lemma stable_read_name: "stable P \<Longrightarrow> P st \<Longrightarrow> read_name n st = Some r \<Longrightarrow> P (snd r)"
  unfolding read_name_def by (rule stable_read_name_loop)

text \<open>
  The loop of \<open>read_name\<close> is its passes: with fuel \<open>n\<close> it returns what \<open>n\<close> passes
  return, and the fuel is not enough exactly when \<open>n\<close> passes do not reach a \<open>return\<close>. A
  stable property holds after every pass.
\<close>

lemma read_name_loop_pass:
  "read_name_loop (Suc n) v st =
     (case read_name_pass v st of Inl r \<Rightarrow> Some r | Inr (v', st') \<Rightarrow> read_name_loop n v' st')"
  by (simp add: read_name_pass_def Let_def split_beta split: prod.splits bool.splits)

lemma read_name_loop_passes:
  "read_name_loop n v st = (case read_name_passes n v st of Inl r \<Rightarrow> Some r | Inr r \<Rightarrow> None)"
proof (induction n arbitrary: v st)
  case 0
  show ?case by simp
next
  case (Suc n)
  show ?case
    by (simp only: read_name_loop_pass read_name_passes.simps)
       (simp add: Suc.IH split: sum.splits prod.splits)
qed

lemma stable_read_name_pass:
  assumes s: "stable P" and p: "P st"
  shows "P (case read_name_pass v st of Inl r \<Rightarrow> snd r | Inr r \<Rightarrow> snd r)"
proof -
  have c: "P (snd (consume ''@'' st))"
    by (rule stable_consume [OF s p])
  have e: "P (st\<lparr>error := ''name reference too large: '' @ input st\<rparr>)"
    by (rule stable_error [OF s p]) simp
  have i: "P (st\<lparr>input := trim 1 (input st)\<rparr>)"
    by (rule stable_input [OF s p])
  have r: "P (snd (read_string st))"
    by (rule stable_read_string [OF s p])
  have r2: "P (snd (read_string st)\<lparr>repeated_names := repeated_names (snd (read_string st)) @ [x]\<rparr>)"
    if "length (repeated_names (snd (read_string st))) < 10" for x
    by (rule stable_repeated_names [OF s r that])
  show ?thesis
    using c e i r r2
    by (auto simp: read_name_pass_def Let_def split_beta split: prod.splits bool.splits)
qed

lemma stable_read_name_passes:
  assumes s: "stable P"
  shows "P st \<Longrightarrow> P (case read_name_passes k v st of Inl r \<Rightarrow> snd r | Inr r \<Rightarrow> snd r)"
proof (induction k arbitrary: v st)
  case 0
  then show ?case by simp
next
  case (Suc k)
  show ?case
  proof (cases "read_name_pass v st")
    case (Inl r)
    with stable_read_name_pass [OF s Suc.prems, of v] show ?thesis by simp
  next
    case (Inr r)
    with stable_read_name_pass [OF s Suc.prems, of v] have "P (snd r)" by simp
    from Suc.IH [OF this, of "fst r"] Inr show ?thesis
      by (simp add: split_beta)
  qed
qed

section \<open>The cases of the type reader\<close>

lemma consume_Cons_same: "input st = c # cs \<Longrightarrow> consume [c] st = (True, st\<lparr>input := cs\<rparr>)"
  by (simp add: consume_def startswith_def trim_def)

lemma consume_Cons_other: "input st = c # cs \<Longrightarrow> c \<noteq> d \<Longrightarrow> consume (d # ds) st = (False, st)"
  by (auto simp: consume_def startswith_def)

lemma consume_Nil_input: "input st = [] \<Longrightarrow> consume (d # ds) st = (False, st)"
  by (auto simp: consume_def startswith_def)

lemma consume_append: "input st = pat @ cs \<Longrightarrow> consume pat st = (True, st\<lparr>input := cs\<rparr>)"
  by (simp add: consume_def startswith_def trim_def)

lemma rvt_T:
  "input st = CHR ''T'' # cs \<Longrightarrow>
   read_var_type (Suc n) ty st = read_class n UnionTy ty (st\<lparr>input := cs\<rparr>)"
  by (simp add: consume_Cons_same)

lemma rvt_U:
  "input st = CHR ''U'' # cs \<Longrightarrow>
   read_var_type (Suc n) ty st = read_class n Struct ty (st\<lparr>input := cs\<rparr>)"
  by (simp add: consume_Cons_same consume_Cons_other)

lemma rvt_V:
  "input st = CHR ''V'' # cs \<Longrightarrow>
   read_var_type (Suc n) ty st = read_class n Class ty (st\<lparr>input := cs\<rparr>)"
  by (simp add: consume_Cons_same consume_Cons_other)

lemma rvt_W4:
  "input st = CHR ''W'' # CHR ''4'' # cs \<Longrightarrow>
   read_var_type (Suc n) ty st =
     (case read_name n (st\<lparr>input := cs\<rparr>) of
        None \<Rightarrow> None
      | Some (v, st1) \<Rightarrow> Some (set_name v (set_prim Enum ty), st1))"
  by (simp add: consume_Cons_other consume_append [of st "''W4''" cs])


lemma rvt_P6A:
  "input st = CHR ''P'' # CHR ''6'' # CHR ''A'' # cs \<Longrightarrow>
   read_var_type (Suc n) ty st =
     (case read_var_type n Type_default (snd (alloc (snd (alloc (st\<lparr>input := cs\<rparr>))))) of
        None \<Rightarrow> None
      | Some (ret, st3) \<Rightarrow>
          (case read_fn_params n [] st3 of
             None \<Rightarrow> None
           | Some (ps, st4) \<Rightarrow>
               Some (set_ptr (set_params ps (set_ptr ret (set_prim Function Type_default)))
                       (set_prim Ptr ty), st4)))"
  by (simp add: consume_Cons_other consume_append [of st "''P6A''" cs])

text \<open>The part that the cases \<open>A\<close>, \<open>P\<close> and \<open>Q\<close> share, behind the first byte.\<close>

lemma rvt_A:
  "input st = CHR ''A'' # cs \<Longrightarrow>
   read_var_type (Suc n) ty st =
     (case read_var_type n
             (set_sclass (fst (read_storage_class (snd (alloc (snd (consume ''E'' (st\<lparr>input := cs\<rparr>)))))))
                Type_default)
             (snd (read_storage_class (snd (alloc (snd (consume ''E'' (st\<lparr>input := cs\<rparr>))))))) of
        None \<Rightarrow> None
      | Some (p, st4) \<Rightarrow> Some (set_ptr p (set_prim Ref ty), st4))"
  by (simp add: consume_Cons_other consume_Cons_same split_beta Let_def)

lemma rvt_P:
  "input st = CHR ''P'' # cs \<Longrightarrow> \<not> startswith cs ''6A'' \<Longrightarrow>
   read_var_type (Suc n) ty st =
     (case read_var_type n
             (set_sclass (fst (read_storage_class (snd (alloc (snd (consume ''E'' (st\<lparr>input := cs\<rparr>)))))))
                Type_default)
             (snd (read_storage_class (snd (alloc (snd (consume ''E'' (st\<lparr>input := cs\<rparr>))))))) of
        None \<Rightarrow> None
      | Some (p, st4) \<Rightarrow> Some (set_ptr p (set_prim Ptr ty), st4))"
proof -
  assume i: "input st = CHR ''P'' # cs" and n: "\<not> startswith cs ''6A''"
  have "consume ''P6A'' st = (False, st)"
    using i n by (auto simp: consume_def startswith_def)
  then show ?thesis
    using i by (simp add: consume_Cons_other consume_Cons_same split_beta Let_def)
qed

lemma rvt_Q:
  "input st = CHR ''Q'' # cs \<Longrightarrow>
   read_var_type (Suc n) ty st =
     (case read_var_type n
             (set_sclass (fst (read_storage_class (snd (alloc (snd (consume ''E'' (st\<lparr>input := cs\<rparr>)))))))
                Type_default)
             (snd (read_storage_class (snd (alloc (snd (consume ''E'' (st\<lparr>input := cs\<rparr>))))))) of
        None \<Rightarrow> None
      | Some (p, st4) \<Rightarrow> Some (set_ptr p (set_sclass Const (set_prim Ptr ty)), st4))"
  by (simp add: consume_Cons_other consume_Cons_same split_beta Let_def)

lemma rvt_Y:
  "input st = CHR ''Y'' # cs \<Longrightarrow>
   read_var_type (Suc n) ty st =
     (let (dimension, st1) = read_number (st\<lparr>input := cs\<rparr>) in
      if sint dimension \<le> 0 then
        Some (ty, st1\<lparr>error := ''invalid array dimension: '' @ to_string (sint dimension)\<rparr>)
      else
        (let (ls, st2) = read_array_dims (nat (sint dimension)) st1;
             (ty1, st3) = read_array_qualifiers ty st2
         in case read_var_type n Type_default st3 of
              None \<Rightarrow> None
            | Some (elem, st4) \<Rightarrow> Some (array_chain ty1 ls elem, st4)))"
  by (simp add: consume_Cons_other consume_Cons_same)

text \<open>The bytes at which \<open>read_var_type\<close> leaves the decision to \<open>read_prim_type\<close>.\<close>

lemma rvt_prim:
  assumes "\<forall>pat \<in> set [''T'', ''U'', ''V'', ''W4'', ''P6A'', ''A'', ''P'', ''Q'', ''Y''].
             \<not> startswith (input st) pat"
  shows "read_var_type (Suc n) ty st =
           (let (p, st1) = read_prim_type st in Some (set_prim p ty, st1))"
  using assms by (simp add: consume_def)

lemma rvt_shapes:
  obtains
    (T) cs where "s = CHR ''T'' # cs"
  | (U) cs where "s = CHR ''U'' # cs"
  | (V) cs where "s = CHR ''V'' # cs"
  | (W4) cs where "s = CHR ''W'' # CHR ''4'' # cs"
  | (P6A) cs where "s = CHR ''P'' # CHR ''6'' # CHR ''A'' # cs"
  | (A) cs where "s = CHR ''A'' # cs"
  | (P) cs where "s = CHR ''P'' # cs" "\<not> startswith cs ''6A''"
  | (Q) cs where "s = CHR ''Q'' # cs"
  | (Y) cs where "s = CHR ''Y'' # cs"
  | (prim) "\<forall>pat \<in> set [''T'', ''U'', ''V'', ''W4'', ''P6A'', ''A'', ''P'', ''Q'', ''Y''].
             \<not> startswith s pat"
proof (cases s)
  case Nil
  then show ?thesis using prim by (simp add: startswith_def)
next
  case (Cons c cs)
  show ?thesis
  proof (cases "c \<in> set ''TUVWPAQY''")
    case False
    with Cons show ?thesis using prim by (auto simp: startswith_def)
  next
    case True
    then consider "c = CHR ''T''" | "c = CHR ''U''" | "c = CHR ''V''" | "c = CHR ''W''"
      | "c = CHR ''P''" | "c = CHR ''A''" | "c = CHR ''Q''" | "c = CHR ''Y''"
      by auto
    then show ?thesis
    proof cases
      case 4
      show ?thesis
      proof (cases "startswith cs ''4''")
        case True
        then obtain ds where "cs = CHR ''4'' # ds"
          by (cases cs) (auto simp: startswith_def)
        with Cons 4 show ?thesis using W4 by simp
      next
        case False
        with Cons 4 show ?thesis using prim
          by (cases cs) (auto simp: startswith_def)
      qed
    next
      case 5
      show ?thesis
      proof (cases "startswith cs ''6A''")
        case True
        then obtain ds where "cs = CHR ''6'' # CHR ''A'' # ds"
          by (cases cs; cases "tl cs") (auto simp: startswith_def)
        with Cons 5 show ?thesis using P6A by simp
      next
        case False
        with Cons 5 show ?thesis using P by simp
      qed
    qed (use Cons T U V A Q Y in auto)
  qed
qed


lemma rfp_error: "error st \<noteq> [] \<Longrightarrow> read_fn_params (Suc n) ps st = Some (ps, st)"
  by simp

lemma rcp_error: "error st \<noteq> [] \<Longrightarrow> read_class_params (Suc n) ps st = Some (ps, st)"
  by simp

lemma case_option_SomeE:
  assumes "(case x of None \<Rightarrow> None | Some y \<Rightarrow> f y) = Some r"
  obtains y where "x = Some y" "f y = Some r"
  using assms by (cases x) auto

lemma stable_read_var_type_all:
  assumes s: "stable P"
  shows "(\<forall>ty st r. P st \<longrightarrow> read_var_type n ty st = Some r \<longrightarrow> P (snd r)) \<and>
         (\<forall>ps st r. P st \<longrightarrow> read_fn_params n ps st = Some r \<longrightarrow> P (snd r)) \<and>
         (\<forall>p ty st r. P st \<longrightarrow> read_class n p ty st = Some r \<longrightarrow> P (snd r)) \<and>
         (\<forall>ps st r. P st \<longrightarrow> read_class_params n ps st = Some r \<longrightarrow> P (snd r))"
proof (induction n)
  case 0
  show ?case by simp
next
  case (Suc n)
  note c = stable_consume [OF s] and a = stable_alloc [OF s] and i = stable_input [OF s]
  from Suc have
    v: "\<And>ty st r. P st \<Longrightarrow> read_var_type n ty st = Some r \<Longrightarrow> P (snd r)" and
    f: "\<And>ps st r. P st \<Longrightarrow> read_fn_params n ps st = Some r \<Longrightarrow> P (snd r)" and
    k: "\<And>p ty st r. P st \<Longrightarrow> read_class n p ty st = Some r \<Longrightarrow> P (snd r)" and
    m: "\<And>ps st r. P st \<Longrightarrow> read_class_params n ps st = Some r \<Longrightarrow> P (snd r)"
    by blast+
  have nm: "\<And>st r. P st \<Longrightarrow> read_name n st = Some r \<Longrightarrow> P (snd r)"
    by (rule stable_read_name [OF s])
  have sc: "\<And>st. P st \<Longrightarrow> P (snd (read_storage_class st))"
    by (rule stable_read_storage_class [OF s])
  have V: "P (snd r)" if p: "P st" and e: "read_var_type (Suc n) ty st = Some r" for ty st r
  proof -
    have ptr: "P (snd r)"
      if "(case read_var_type n t0
             (snd (read_storage_class (snd (alloc (snd (consume ''E'' (st\<lparr>input := cs\<rparr>))))))) of
             None \<Rightarrow> None | Some (q, st4) \<Rightarrow> Some (g q, st4)) = Some r" for cs t0 g
    proof -
      from that obtain y where
        y: "read_var_type n t0
             (snd (read_storage_class (snd (alloc (snd (consume ''E'' (st\<lparr>input := cs\<rparr>))))))) = Some y"
        and r: "(case y of (q, st4) \<Rightarrow> Some (g q, st4)) = Some r"
        by (rule case_option_SomeE)
      have "P (snd y)"
        by (rule v [OF sc [OF a [OF c [OF i [OF p]]]] y])
      with r show ?thesis by (auto split: prod.splits)
    qed
    show ?thesis
    proof (cases rule: rvt_shapes [of "input st"])
      case (T cs)
      from e show ?thesis unfolding rvt_T [OF T] by (rule k [OF i [OF p]])
    next
      case (U cs)
      from e show ?thesis unfolding rvt_U [OF U] by (rule k [OF i [OF p]])
    next
      case (V cs)
      from e show ?thesis unfolding rvt_V [OF V] by (rule k [OF i [OF p]])
    next
      case (W4 cs)
      from e obtain y where y: "read_name n (st\<lparr>input := cs\<rparr>) = Some y"
        and r: "(case y of (v, st1) \<Rightarrow> Some (set_name v (set_prim Enum ty), st1)) = Some r"
        unfolding rvt_W4 [OF W4] by (rule case_option_SomeE)
      have "P (snd y)" by (rule nm [OF i [OF p] y])
      with r show ?thesis by (auto split: prod.splits)
    next
      case (P6A cs)
      from e obtain y where
        y: "read_var_type n Type_default (snd (alloc (snd (alloc (st\<lparr>input := cs\<rparr>))))) = Some y"
        and r: "(case y of (ret, st3) \<Rightarrow>
                  (case read_fn_params n [] st3 of
                     None \<Rightarrow> None
                   | Some (ps, st4) \<Rightarrow>
                       Some (set_ptr (set_params ps (set_ptr ret (set_prim Function Type_default)))
                               (set_prim Ptr ty), st4))) = Some r"
        unfolding rvt_P6A [OF P6A] by (rule case_option_SomeE)
      have py: "P (snd y)" by (rule v [OF a [OF a [OF i [OF p]]] y])
      from r obtain z where z: "read_fn_params n [] (snd y) = Some z" and rz: "snd r = snd z"
        by (auto split: prod.splits option.splits)
      from f [OF py z] rz show ?thesis by simp
    next
      case (A cs)
      from e show ?thesis unfolding rvt_A [OF A] by (rule ptr)
    next
      case (P cs)
      from e show ?thesis unfolding rvt_P [OF P] by (rule ptr)
    next
      case (Q cs)
      from e show ?thesis unfolding rvt_Q [OF Q] by (rule ptr)
    next
      case (Y cs)
      let ?st1 = "snd (read_number (st\<lparr>input := cs\<rparr>))"
      let ?d = "fst (read_number (st\<lparr>input := cs\<rparr>))"
      let ?st2 = "snd (read_array_dims (nat (sint ?d)) ?st1)"
      let ?st3 = "snd (read_array_qualifiers ty ?st2)"
      have p1: "P ?st1" by (rule stable_read_number [OF s i [OF p]])
      have p3: "P ?st3"
        by (rule stable_read_array_qualifiers [OF s stable_read_array_dims [OF s p1]])
      show ?thesis
      proof (cases "sint ?d \<le> 0")
        case True
        with e have "snd r = ?st1\<lparr>error := ''invalid array dimension: '' @ to_string (sint ?d)\<rparr>"
          unfolding rvt_Y [OF Y] by (auto simp: split_beta)
        with stable_error [OF s p1] show ?thesis by simp
      next
        case False
        with e obtain y where y: "read_var_type n Type_default ?st3 = Some y" and "snd r = snd y"
          unfolding rvt_Y [OF Y] by (auto simp: split_beta Let_def split: option.splits)
        with v [OF p3 y] show ?thesis by simp
      qed
    next
      case prim
      from e have "snd r = snd (read_prim_type st)"
        unfolding rvt_prim [OF prim] by (auto simp: split_beta)
      with stable_read_prim_type [OF s p] show ?thesis by simp
    qed
  qed
  have F: "P (snd r)" if p: "P st" and e: "read_fn_params (Suc n) ps st = Some r" for ps st r
  proof -
    have "r = (ps, st) \<or> r = (ps, snd (consume ''@Z'' st)) \<or> r = (ps, snd (consume ''Z'' st)) \<or>
          (\<exists>y. read_var_type n Type_default (snd (alloc st)) = Some y \<and>
               read_fn_params n (ps @ [fst y]) (snd y) = Some r)"
      using e by (auto split: if_splits option.splits)
    then show ?thesis
    proof (elim disjE exE conjE)
      fix y
      assume y: "read_var_type n Type_default (snd (alloc st)) = Some y"
        and z: "read_fn_params n (ps @ [fst y]) (snd y) = Some r"
      show ?thesis by (rule f [OF v [OF a [OF p] y] z])
    qed (use p c [OF p] in simp_all)
  qed
  have K: "P (snd r)" if p: "P st" and e: "read_class (Suc n) q ty st = Some r" for q ty st r
  proof -
    have "(\<exists>y. read_class_params n [] (snd (read_string (snd (consume ''?$'' st)))) = Some y \<and>
              snd r = snd y) \<or>
          (\<exists>y. read_name n st = Some y \<and> snd r = snd y)"
      using e by (auto simp: split_beta split: if_splits option.splits)
    then show ?thesis
    proof (elim disjE exE conjE)
      fix y
      assume "read_class_params n [] (snd (read_string (snd (consume ''?$'' st)))) = Some y"
        and "snd r = snd y"
      with m [OF stable_read_string [OF s c [OF p]]] show ?thesis by simp
    next
      fix y
      assume "read_name n st = Some y" and "snd r = snd y"
      with nm [OF p] show ?thesis by simp
    qed
  qed
  have M: "P (snd r)" if p: "P st" and e: "read_class_params (Suc n) ps st = Some r" for ps st r
  proof -
    have "r = (ps, st) \<or> r = (ps, snd (consume ''@'' st)) \<or>
          (\<exists>y. read_var_type n Type_default (snd (alloc st)) = Some y \<and>
               read_class_params n (ps @ [fst y]) (snd y) = Some r)"
      using e by (auto split: if_splits option.splits)
    then show ?thesis
    proof (elim disjE exE conjE)
      fix y
      assume y: "read_var_type n Type_default (snd (alloc st)) = Some y"
        and z: "read_class_params n (ps @ [fst y]) (snd y) = Some r"
      show ?thesis by (rule m [OF v [OF a [OF p] y] z])
    qed (use p c [OF p] in simp_all)
  qed
  from V F K M show ?case by blast
qed

lemma stable_read_var_type:
  "stable P \<Longrightarrow> P st \<Longrightarrow> read_var_type n ty st = Some r \<Longrightarrow> P (snd r)"
  using stable_read_var_type_all [of P n] by blast

lemma stable_read_fn_params:
  "stable P \<Longrightarrow> P st \<Longrightarrow> read_fn_params n ps st = Some r \<Longrightarrow> P (snd r)"
  using stable_read_var_type_all [of P n] by blast

lemma stable_read_class:
  "stable P \<Longrightarrow> P st \<Longrightarrow> read_class n p ty st = Some r \<Longrightarrow> P (snd r)"
  using stable_read_var_type_all [of P n] by blast

lemma stable_read_class_params:
  "stable P \<Longrightarrow> P st \<Longrightarrow> read_class_params n ps st = Some r \<Longrightarrow> P (snd r)"
  using stable_read_var_type_all [of P n] by blast

lemma stable_read_func_return_type:
  assumes s: "stable P" and p: "P st" and e: "read_func_return_type n ty st = Some r"
  shows "P (snd r)"
proof (cases "fst (consume ''@'' st)")
  case True
  with e have "snd r = snd (consume ''@'' st)"
    by (auto simp: read_func_return_type_def)
  with stable_consume [OF s p] show ?thesis by simp
next
  case False
  with e obtain y where y: "read_var_type n ty st = Some y"
    and r: "snd r = snd (consume ''@'' (snd y))"
    by (auto simp: read_func_return_type_def split: option.splits)
  from stable_consume [OF s stable_read_var_type [OF s p y]] r show ?thesis by simp
qed

lemma stable_parse_params:
  "stable P \<Longrightarrow> P st \<Longrightarrow> parse_params n c ps st = Some r \<Longrightarrow> P (snd r)"
proof (induction n arbitrary: ps st)
  case 0
  then show ?case by simp
next
  case (Suc n)
  show ?case
  proof (cases "error st = [] \<and> input st \<noteq> [] \<and> \<not> startswith_c (input st) c")
    case True
    with Suc.prems(3) obtain y where
      y: "read_var_type n Type_default (snd (alloc st)) = Some y" and
      z: "parse_params n c (ps @ [fst y]) (snd y) = Some r"
      by (auto split: option.splits)
    from stable_read_var_type [OF Suc.prems(1) stable_alloc [OF Suc.prems(1,2)] y]
    show ?thesis by (rule Suc.IH [OF Suc.prems(1) _ z])
  next
    case False
    with Suc.prems show ?thesis by auto
  qed
qed

lemma stable_parse_var:
  assumes s: "stable P" and p: "P st" and e: "parse_var n st = Some d"
  shows "P d"
proof -
  from e obtain y where y: "read_var_type n (type st) st = Some y"
    and d: "d = (snd y)\<lparr>type := fst y\<rparr>"
    by (auto simp: parse_var_def split: option.splits)
  from stable_type [OF s stable_read_var_type [OF s p y]] d show ?thesis by simp
qed

lemma stable_parse_func:
  assumes s: "stable P" and p: "P st" and e: "parse_func n st = Some d"
  shows "P d"
proof -
  let ?st3 = "snd (read_storage_class_for_return (snd (alloc (snd (read_calling_conv st)))))"
  let ?t = "set_sclass (fst (read_storage_class_for_return (snd (alloc (snd (read_calling_conv st))))))
              Type_default"
  have p3: "P ?st3"
    by (intro stable_read_storage_class_for_return [OF s] stable_alloc [OF s]
        stable_read_calling_conv [OF s] p)
  show ?thesis
  proof (cases "read_var_type n ?t ?st3")
    case None
    with e show ?thesis by (simp add: parse_func_def split_beta Let_def)
  next
    case y: (Some y)
    show ?thesis
    proof (cases "parse_params n (CHR ''@'') [] (snd y)")
      case None
      with e y show ?thesis by (simp add: parse_func_def split_beta Let_def)
    next
      case z: (Some z)
      have "\<exists>t'. d = (snd z)\<lparr>type := t'\<rparr>"
        using e y z by (auto simp: parse_func_def split_beta Let_def)
      with stable_parse_params [OF s stable_read_var_type [OF s p3 y] z]
      show ?thesis by (auto intro: stable_type [OF s])
    qed
  qed
qed

lemma stable_parse_member_func:
  assumes s: "stable P" and p: "P st" and e: "parse_member_func n st = Some d"
  shows "P d"
proof -
  let ?st4 = "snd (alloc (snd (read_calling_conv (snd (consume ''E'' (snd (read_func_class st)))))))"
  let ?st5 = "snd (read_storage_class ?st4)"
  let ?t = "set_sclass (fst (read_storage_class ?st4)) Type_default"
  have p5: "P ?st5"
    by (intro stable_read_storage_class [OF s] stable_alloc [OF s]
        stable_read_calling_conv [OF s] stable_consume [OF s] stable_read_func_class [OF s] p)
  show ?thesis
  proof (cases "read_func_return_type n ?t ?st5")
    case None
    with e show ?thesis by (simp add: parse_member_func_def split_beta Let_def)
  next
    case y: (Some y)
    show ?thesis
    proof (cases "parse_params n (CHR ''Z'') [] (snd y)")
      case None
      with e y show ?thesis by (simp add: parse_member_func_def split_beta Let_def)
    next
      case z: (Some z)
      have "\<exists>t'. d = (snd z)\<lparr>type := t'\<rparr>"
        using e y z by (auto simp: parse_member_func_def split_beta Let_def)
      with stable_parse_params [OF s stable_read_func_return_type [OF s p5 y] z]
      show ?thesis by (auto intro: stable_type [OF s])
    qed
  qed
qed

lemma stable_parse:
  assumes s: "stable P" and p: "P st" and e: "parse n st = Some d"
  shows "P d"
proof -
  let ?st1 = "if \<not> fst (consume ''?'' st)
              then st\<lparr>symbol := symbol st @ [input st], type := set_prim Unknown (type st)\<rparr>
              else snd (consume ''?'' st)"
  have p1: "P ?st1"
    using stable_consume [OF s p, of "''?''"] stable_type [OF s stable_symbol [OF s p]]
    by simp
  from e obtain y where y: "read_name n ?st1 = Some y"
    and b: "(case y of (v, st2) \<Rightarrow>
              if fst (consume ''3'' (st2\<lparr>symbol := v\<rparr>))
                then parse_var n (snd (consume ''3'' (st2\<lparr>symbol := v\<rparr>)))
              else if fst (consume ''Y'' (st2\<lparr>symbol := v\<rparr>))
                then parse_func n (snd (consume ''Y'' (st2\<lparr>symbol := v\<rparr>)))
              else parse_member_func n (st2\<lparr>symbol := v\<rparr>)) = Some d"
    unfolding parse_def Let_def by (rule case_option_SomeE)
  obtain v st2 where yv: "y = (v, st2)" by (cases y)
  have p3: "P (st2\<lparr>symbol := v\<rparr>)"
    using stable_symbol [OF s stable_read_name [OF s p1 y]] yv by simp
  from b yv consider
      "parse_var n (snd (consume ''3'' (st2\<lparr>symbol := v\<rparr>))) = Some d"
    | "parse_func n (snd (consume ''Y'' (st2\<lparr>symbol := v\<rparr>))) = Some d"
    | "parse_member_func n (st2\<lparr>symbol := v\<rparr>) = Some d"
    by (auto split: if_splits)
  then show ?thesis
  proof cases
    case 1
    then show ?thesis by (rule stable_parse_var [OF s stable_consume [OF s p3]])
  next
    case 2
    then show ?thesis by (rule stable_parse_func [OF s stable_consume [OF s p3]])
  next
    case 3
    then show ?thesis by (rule stable_parse_member_func [OF s p3])
  qed
qed

lemma stable_error_set: "stable (\<lambda>st. error st \<noteq> [])"
  by (simp add: stable_def)


text \<open>
  \<open>type_index\<close> only grows. So a read that ends with at most 20 nodes taken began with
  at most 20, and every node it took lies in \<open>type_buffer\<close>.
\<close>

lemma stable_nodes_taken: "stable (\<lambda>st. k \<le> type_index st)"
  by (simp add: stable_def)

lemma in_type_buffer_read_var_type:
  "read_var_type n ty st = Some r \<Longrightarrow> in_type_buffer (snd r) \<Longrightarrow> in_type_buffer st"
  using stable_read_var_type [OF stable_nodes_taken, of "type_index st" st n ty r]
  by (simp add: in_type_buffer_def)

lemma in_type_buffer_parse:
  "parse n st = Some d \<Longrightarrow> in_type_buffer d \<Longrightarrow> in_type_buffer st"
  using stable_parse [OF stable_nodes_taken, of "type_index st" st n d]
  by (simp add: in_type_buffer_def)

section \<open>A name without its terminator\<close>

lemma read_string_loop_None: "CHR ''@'' \<notin> set s \<Longrightarrow> read_string_loop s i = None"
  by (induction s arbitrary: i) auto

lemma read_string_no_at:
  "CHR ''@'' \<notin> set (input st) \<Longrightarrow> input (snd (read_string st)) = input st"
  by (simp add: read_string_def read_string_loop_None)

lemma consume_at_no_at: "CHR ''@'' \<notin> set (input st) \<Longrightarrow> consume ''@'' st = (False, st)"
  by (cases "input st") (auto simp: consume_def startswith_def)

lemma read_name_loop_diverges:
  "CHR ''@'' \<notin> set (input st) \<Longrightarrow> \<not> (0 < length (input st) \<and> is_digit (hd (input st))) \<Longrightarrow>
   read_name_loop n v st = None"
proof (induction n arbitrary: v st)
  case 0
  show ?case by simp
next
  case (Suc n)
  let ?st2 = "snd (read_string st)"
  let ?st3 = "if length (repeated_names ?st2) < 10
              then ?st2\<lparr>repeated_names := repeated_names ?st2 @ [fst (read_string st)]\<rparr>
              else ?st2"
  have i: "input ?st3 = input st"
    using read_string_no_at [OF Suc.prems(1)] by simp
  have "read_name_loop (Suc n) v st = read_name_loop n (v @ [fst (read_string st)]) ?st3"
    using Suc.prems by (cases "input st") (auto simp: consume_at_no_at split_beta Let_def)
  also have "\<dots> = None"
    by (rule Suc.IH) (use Suc.prems i in simp_all)
  finally show ?case .
qed

lemma parse_diverges_general:
  assumes "CHR ''@'' \<notin> set s" and "\<not> is_digit (hd (s @ ''x''))"
    and "\<not> (startswith s ''?'' \<and> is_digit (hd (tl s @ ''x'')))"
  shows "parse n (Demangler_init s) = None"
proof -
  let ?st0 = "Demangler_init s"
  let ?st1 = "if \<not> fst (consume ''?'' ?st0)
              then ?st0\<lparr>symbol := symbol ?st0 @ [input ?st0], type := set_prim Unknown (type ?st0)\<rparr>
              else snd (consume ''?'' ?st0)"
  have a: "CHR ''@'' \<notin> set (input ?st1)"
    using assms(1) by (auto simp: consume_def Demangler_init_def trim_def dest: in_set_dropD)
  have b: "\<not> (0 < length (input ?st1) \<and> is_digit (hd (input ?st1)))"
    using assms(2,3)
    by (cases s) (auto simp: consume_def Demangler_init_def trim_def startswith_def)
  have "read_name n ?st1 = None"
    unfolding read_name_def by (rule read_name_loop_diverges [OF a b])
  then show ?thesis
    by (simp add: parse_def Let_def)
qed

text \<open>
  Claim C2. \<open>read_string\<close> fails without moving the cursor when no \<open>@\<close> is left, and
  the loop of \<open>read_name\<close>, unlike the other loops of the parser, does not look at the
  error: it runs again on the same input. So on \<open>?x\<close>, on \<open>foo\<close> and on the empty input
  no amount of fuel brings \<open>parse\<close> to an end.
\<close>

theorem parse_never_returns:
  "parse n (Demangler_init ''?x'') = None \<and> demangle n ''?x'' = None \<and>
   parse n (Demangler_init ''foo'') = None \<and> parse n (Demangler_init []) = None"
proof -
  have d: "\<not> is_digit (CHR ''x'')" "\<not> is_digit (CHR ''f'')" "\<not> is_digit (CHR ''?'')"
    by (simp_all add: is_digit_def char_int_def)
  have 1: "parse n (Demangler_init ''?x'') = None"
    by (rule parse_diverges_general) (simp_all add: d startswith_def)
  have 2: "parse n (Demangler_init ''foo'') = None"
    by (rule parse_diverges_general) (simp_all add: d startswith_def)
  have 3: "parse n (Demangler_init []) = None"
    by (rule parse_diverges_general) (simp_all add: d startswith_def)
  from 1 2 3 show ?thesis by (simp add: demangle_def)
qed

section \<open>The error slot\<close>

text \<open>
  A symbol on which the slot is set and the parser then never returns: in \<open>?f@@QBVx\<close>
  the byte \<open>B\<close> is no calling convention, \<open>read_calling_conv\<close> sets the slot, and the
  class name \<open>x\<close> that \<open>read_class\<close> then reads has no \<open>@\<close>.
\<close>

lemma read_var_type_Vx:
  "input st = ''Vx'' \<Longrightarrow> read_var_type n ty st = None"
proof (cases n)
  case 0
  then show ?thesis by simp
next
  case (Suc m)
  assume i: "input st = ''Vx''"
  have d: "\<not> is_digit (CHR ''x'')"
    by (simp add: is_digit_def char_int_def)
  have rn: "read_name k (snd (consume ''V'' st)) = None" for k
    unfolding read_name_def
    by (rule read_name_loop_diverges) (simp_all add: i consume_def startswith_def trim_def d)
  have c: "\<not> fst (consume ''?$'' (snd (consume ''V'' st)))"
    by (simp add: i consume_def startswith_def trim_def)
  have "read_class m Class ty (snd (consume ''V'' st)) = None"
    by (cases m) (simp_all add: c rn)
  moreover have "\<not> fst (consume ''T'' st)" "\<not> fst (consume ''U'' st)" "fst (consume ''V'' st)"
    by (simp_all add: i consume_def startswith_def)
  ultimately show ?thesis
    using Suc by simp
qed

lemma parse_member_func_QBVx:
  "input st = ''QBVx'' \<Longrightarrow> parse_member_func n st = None"
proof -
  assume i: "input st = ''QBVx''"
  let ?s5 = "snd (read_storage_class (snd (alloc (snd (read_calling_conv
               (snd (consume ''E'' (snd (read_func_class st)))))))))"
  have "input ?s5 = ''Vx''"
    by (simp add: i read_func_class_def get_def func_class_table_def ord_def char_int_def
          consume_def startswith_def read_calling_conv_def calling_conv_table_def unget_def
          alloc_def read_storage_class_def storage_class_table_def trim_def Let_def)
  then have v: "read_var_type n ty ?s5 = None" and c: "\<not> fst (consume ''@'' ?s5)" for ty
    by (simp_all add: read_var_type_Vx consume_def startswith_def)
  show ?thesis
    by (simp add: parse_member_func_def split_beta Let_def read_func_return_type_def v c)
qed

lemma read_name_Suc_Suc_f:
  "read_name (Suc (Suc m)) (Demangler_init ''f@@QBVx'')
     = Some ([''f''], Demangler_init ''QBVx''\<lparr>repeated_names := [''f'']\<rparr>)"
  by (simp add: read_name_def Demangler_init_def consume_def startswith_def is_digit_def
      char_int_def read_string_def trim_def Let_def)

lemma parse_question:
  "parse n (Demangler_init (CHR ''?'' # cs)) =
     (case read_name n (Demangler_init cs) of
        None \<Rightarrow> None
      | Some (v, st2) \<Rightarrow>
          if fst (consume ''3'' (st2\<lparr>symbol := v\<rparr>))
            then parse_var n (snd (consume ''3'' (st2\<lparr>symbol := v\<rparr>)))
          else if fst (consume ''Y'' (st2\<lparr>symbol := v\<rparr>))
            then parse_func n (snd (consume ''Y'' (st2\<lparr>symbol := v\<rparr>)))
          else parse_member_func n (st2\<lparr>symbol := v\<rparr>))"
  by (auto simp: parse_def consume_def startswith_def trim_def Demangler_init_def Let_def
      split: option.splits)

lemma parse_QBVx: "parse n (Demangler_init ''?f@@QBVx'') = None"
proof -
  consider "n = 0" | "n = 1" | m where "n = Suc (Suc m)"
    by (cases n; cases "n - 1") auto
  then show ?thesis
  proof cases
    case 1
    then show ?thesis by (simp add: parse_question read_name_def)
  next
    case 2
    have "read_name 1 (Demangler_init ''f@@QBVx'') = None"
      by code_simp
    with 2 show ?thesis by (simp add: parse_question)
  next
    case (3 m)
    have "parse_member_func n (Demangler_init ''QBVx''\<lparr>repeated_names := [''f''], symbol := [''f'']\<rparr>) = None"
      by (rule parse_member_func_QBVx) (simp add: Demangler_init_def)
    then show ?thesis
      unfolding parse_question 3 read_name_Suc_Suc_f
      by (simp add: consume_def startswith_def Demangler_init_def)
  qed
qed

text \<open>
  Claim C4, as the code has it. No \<open>read_*\<close> function looks at the error slot. Once the
  slot is set it stays set: each \<open>read_*\<close> function still runs, and when it returns there
  is an error in the slot (its own message when it fails itself). The loop of \<open>read_name\<close>
  keeps the slot set in every pass, whether it ends or not. The parameter loops stop at
  once. \<open>parse\<close> and its three branches end with the slot set when they end. When
  \<open>parse\<close> ends with the slot set, \<open>demangle\<close> returns the error that is in the slot at
  that moment; so it does when \<open>read_name\<close>, the first read of \<open>parse\<close>, has left an
  error. \<open>parse\<close> need not end: on \<open>?f@@QBVx\<close> \<open>read_name\<close> returns the name,
  \<open>read_calling_conv\<close> sets the slot, and then no fuel is enough. All this is stated for
  the runs that begin and end \<open>in_type_buffer\<close>.
\<close>

theorem error_slot_stays_set:
  "(error st \<noteq> [] \<and> in_type_buffer st \<longrightarrow>
      error (snd (read_number st)) \<noteq> [] \<and>
      error (snd (read_string st)) \<noteq> [] \<and>
      error (snd (read_func_class st)) \<noteq> [] \<and>
      error (snd (read_calling_conv st)) \<noteq> [] \<and>
      error (snd (read_storage_class st)) \<noteq> [] \<and>
      error (snd (read_storage_class_for_return st)) \<noteq> [] \<and>
      error (snd (read_prim_type st)) \<noteq> [] \<and>
      (\<forall>k. error (case read_name_passes k acc st of Inl r \<Rightarrow> snd r | Inr r \<Rightarrow> snd r) \<noteq> []) \<and>
      (\<forall>r. read_name n st = Some r \<longrightarrow> error (snd r) \<noteq> []) \<and>
      (\<forall>r. read_var_type n ty st = Some r \<and> in_type_buffer (snd r) \<longrightarrow> error (snd r) \<noteq> []) \<and>
      (\<forall>r. read_class n p ty st = Some r \<and> in_type_buffer (snd r) \<longrightarrow> error (snd r) \<noteq> []) \<and>
      (\<forall>r. read_func_return_type n ty st = Some r \<and> in_type_buffer (snd r)
             \<longrightarrow> error (snd r) \<noteq> []) \<and>
      read_fn_params (Suc n) ps st = Some (ps, st) \<and>
      read_class_params (Suc n) ps st = Some (ps, st) \<and>
      parse_params (Suc n) c ps st = Some (ps, st) \<and>
      (\<forall>d. parse_var n st = Some d \<and> in_type_buffer d \<longrightarrow> error d \<noteq> []) \<and>
      (\<forall>d. parse_func n st = Some d \<and> in_type_buffer d \<longrightarrow> error d \<noteq> []) \<and>
      (\<forall>d. parse_member_func n st = Some d \<and> in_type_buffer d \<longrightarrow> error d \<noteq> []) \<and>
      (\<forall>d. parse n st = Some d \<and> in_type_buffer d \<longrightarrow> error d \<noteq> [])) \<and>
   (\<forall>cs w st2 d. read_name n (Demangler_init cs) = Some (w, st2) \<and> error st2 \<noteq> [] \<and>
          parse n (Demangler_init (CHR ''?'' # cs)) = Some d \<and> in_type_buffer d \<longrightarrow>
          error d \<noteq> [] \<and> demangle n (CHR ''?'' # cs) = Some (Inl (error d))) \<and>
   (\<forall>s d. parse n (Demangler_init s) = Some d \<and> in_type_buffer d \<and> error d \<noteq> [] \<longrightarrow>
          demangle n s = Some (Inl (error d))) \<and>
   read_name (Suc (Suc n)) (Demangler_init ''f@@QBVx'')
     = Some ([''f''], Demangler_init ''QBVx''\<lparr>repeated_names := [''f'']\<rparr>) \<and>
   error (snd (read_calling_conv (snd (consume ''E'' (snd (read_func_class
            (Demangler_init ''QBVx''\<lparr>repeated_names := [''f''], symbol := [''f'']\<rparr>)))))))
     = ''unknown calling convention: BVx'' \<and>
   parse n (Demangler_init ''?f@@QBVx'') = None \<and> demangle n ''?f@@QBVx'' = None"
proof -
  note s = stable_error_set
  have A: "error (snd (read_number st)) \<noteq> [] \<and>
      error (snd (read_string st)) \<noteq> [] \<and>
      error (snd (read_func_class st)) \<noteq> [] \<and>
      error (snd (read_calling_conv st)) \<noteq> [] \<and>
      error (snd (read_storage_class st)) \<noteq> [] \<and>
      error (snd (read_storage_class_for_return st)) \<noteq> [] \<and>
      error (snd (read_prim_type st)) \<noteq> [] \<and>
      (\<forall>k. error (case read_name_passes k acc st of Inl r \<Rightarrow> snd r | Inr r \<Rightarrow> snd r) \<noteq> []) \<and>
      (\<forall>r. read_name n st = Some r \<longrightarrow> error (snd r) \<noteq> []) \<and>
      (\<forall>r. read_var_type n ty st = Some r \<and> in_type_buffer (snd r) \<longrightarrow> error (snd r) \<noteq> []) \<and>
      (\<forall>r. read_class n p ty st = Some r \<and> in_type_buffer (snd r) \<longrightarrow> error (snd r) \<noteq> []) \<and>
      (\<forall>r. read_func_return_type n ty st = Some r \<and> in_type_buffer (snd r)
             \<longrightarrow> error (snd r) \<noteq> []) \<and>
      read_fn_params (Suc n) ps st = Some (ps, st) \<and>
      read_class_params (Suc n) ps st = Some (ps, st) \<and>
      parse_params (Suc n) c ps st = Some (ps, st) \<and>
      (\<forall>d. parse_var n st = Some d \<and> in_type_buffer d \<longrightarrow> error d \<noteq> []) \<and>
      (\<forall>d. parse_func n st = Some d \<and> in_type_buffer d \<longrightarrow> error d \<noteq> []) \<and>
      (\<forall>d. parse_member_func n st = Some d \<and> in_type_buffer d \<longrightarrow> error d \<noteq> []) \<and>
      (\<forall>d. parse n st = Some d \<and> in_type_buffer d \<longrightarrow> error d \<noteq> [])"
    if e: "error st \<noteq> []"
  proof -
    have "error (snd (read_number st)) \<noteq> []"
      by (rule stable_read_number [OF s e])
    moreover have "error (snd (read_string st)) \<noteq> []"
      by (rule stable_read_string [OF s e])
    moreover have "error (snd (read_func_class st)) \<noteq> []"
      by (rule stable_read_func_class [OF s e])
    moreover have "error (snd (read_calling_conv st)) \<noteq> []"
      by (rule stable_read_calling_conv [OF s e])
    moreover have "error (snd (read_storage_class st)) \<noteq> []"
      by (rule stable_read_storage_class [OF s e])
    moreover have "error (snd (read_storage_class_for_return st)) \<noteq> []"
      by (rule stable_read_storage_class_for_return [OF s e])
    moreover have "error (snd (read_prim_type st)) \<noteq> []"
      by (rule stable_read_prim_type [OF s e])
    moreover have "\<forall>k. error (case read_name_passes k acc st of Inl r \<Rightarrow> snd r | Inr r \<Rightarrow> snd r) \<noteq> []"
      using stable_read_name_passes [OF s e] by blast
    moreover have "\<forall>r. read_name n st = Some r \<longrightarrow> error (snd r) \<noteq> []"
      using stable_read_name [OF s e] by blast
    moreover have "\<forall>r. read_var_type n ty st = Some r \<and> in_type_buffer (snd r) \<longrightarrow> error (snd r) \<noteq> []"
      using stable_read_var_type [OF s e] by blast
    moreover have "\<forall>r. read_class n p ty st = Some r \<and> in_type_buffer (snd r) \<longrightarrow> error (snd r) \<noteq> []"
      using stable_read_class [OF s e] by blast
    moreover have "\<forall>r. read_func_return_type n ty st = Some r \<and> in_type_buffer (snd r)
                     \<longrightarrow> error (snd r) \<noteq> []"
      using stable_read_func_return_type [OF s e] by blast
    moreover have "read_fn_params (Suc n) ps st = Some (ps, st)"
      using e by simp
    moreover have "read_class_params (Suc n) ps st = Some (ps, st)"
      using e by simp
    moreover have "parse_params (Suc n) c ps st = Some (ps, st)"
      using e by simp
    moreover have "\<forall>d. parse_var n st = Some d \<and> in_type_buffer d \<longrightarrow> error d \<noteq> []"
      using stable_parse_var [OF s e] by blast
    moreover have "\<forall>d. parse_func n st = Some d \<and> in_type_buffer d \<longrightarrow> error d \<noteq> []"
      using stable_parse_func [OF s e] by blast
    moreover have "\<forall>d. parse_member_func n st = Some d \<and> in_type_buffer d \<longrightarrow> error d \<noteq> []"
      using stable_parse_member_func [OF s e] by blast
    moreover have "\<forall>d. parse n st = Some d \<and> in_type_buffer d \<longrightarrow> error d \<noteq> []"
      using stable_parse [OF s e] by blast
    ultimately show ?thesis by blast
  qed
  have B: "error d \<noteq> [] \<and> demangle n (CHR ''?'' # cs) = Some (Inl (error d))"
    if rn: "read_name n (Demangler_init cs) = Some (w, st2)" and e2: "error st2 \<noteq> []"
      and p: "parse n (Demangler_init (CHR ''?'' # cs)) = Some d" for cs w st2 d
  proof -
    have e3: "error (st2\<lparr>symbol := w\<rparr>) \<noteq> []"
      using e2 by simp
    from p consider
        "parse_var n (snd (consume ''3'' (st2\<lparr>symbol := w\<rparr>))) = Some d"
      | "parse_func n (snd (consume ''Y'' (st2\<lparr>symbol := w\<rparr>))) = Some d"
      | "parse_member_func n (st2\<lparr>symbol := w\<rparr>) = Some d"
      unfolding parse_question rn by (auto split: if_splits)
    then have "error d \<noteq> []"
    proof cases
      case 1
      then show ?thesis by (rule stable_parse_var [OF s stable_consume [OF s e3]])
    next
      case 2
      then show ?thesis by (rule stable_parse_func [OF s stable_consume [OF s e3]])
    next
      case 3
      then show ?thesis by (rule stable_parse_member_func [OF s e3])
    qed
    with p show ?thesis by (simp add: demangle_def)
  qed
  have C: "demangle n s = Some (Inl (error d))"
    if "parse n (Demangler_init s) = Some d" and "error d \<noteq> []" for s d
    using that by (simp add: demangle_def)
  have D: "read_name (Suc (Suc n)) (Demangler_init ''f@@QBVx'')
             = Some ([''f''], Demangler_init ''QBVx''\<lparr>repeated_names := [''f'']\<rparr>)"
    by (rule read_name_Suc_Suc_f)
  have E: "error (snd (read_calling_conv (snd (consume ''E'' (snd (read_func_class
            (Demangler_init ''QBVx''\<lparr>repeated_names := [''f''], symbol := [''f'']\<rparr>)))))))
             = ''unknown calling convention: BVx''"
    by code_simp
  have F: "parse n (Demangler_init ''?f@@QBVx'') = None"
    by (rule parse_QBVx)
  have G: "demangle n ''?f@@QBVx'' = None"
    by (simp add: demangle_def parse_QBVx)
  from A B C D E F G show ?thesis by blast
qed

theorem error_slot_stays_set_witness:
  "error (Demangler_init ''@''\<lparr>error := ''bad number''\<rparr>) \<noteq> [] \<and>
   in_type_buffer (Demangler_init ''@''\<lparr>error := ''bad number''\<rparr>) \<and>
   read_var_type 2 Type_default (Demangler_init ''@''\<lparr>error := ''bad number''\<rparr>)
     = Some (Type_default, Demangler_init ''@''\<lparr>error := ''unknown primitive type: @''\<rparr>) \<and>
   in_type_buffer (Demangler_init ''@''\<lparr>error := ''unknown primitive type: @''\<rparr>) \<and>
   error (Demangler_init ''@''\<lparr>error := ''unknown primitive type: @''\<rparr>) \<noteq> [] \<and>
   read_name 5 (Demangler_init ''0@3H'')
     = Some ([], Demangler_init ''0@3H''\<lparr>error := ''name reference too large: 0@3H''\<rparr>) \<and>
   map_option type_index (parse 5 (Demangler_init ''?0@3H'')) = Some 1 \<and>
   demangle 5 ''?0@3H'' = Some (Inl ''unknown primitive type: 0@3H'')"
proof -
  let ?st = "Demangler_init ''@''\<lparr>error := ''bad number''\<rparr>"
  let ?st' = "Demangler_init ''@''\<lparr>error := ''unknown primitive type: @''\<rparr>"
  let ?st2 = "Demangler_init ''0@3H''\<lparr>error := ''name reference too large: 0@3H''\<rparr>"
  have a: "error ?st \<noteq> []"
    by simp
  have a': "in_type_buffer ?st"
    by (simp add: in_type_buffer_def Demangler_init_def)
  have b: "read_var_type 2 Type_default ?st = Some (Type_default, ?st')"
    by code_simp
  have i: "in_type_buffer ?st'"
    by (simp add: in_type_buffer_def Demangler_init_def)
  have rn: "read_name 5 (Demangler_init ''0@3H'') = Some ([], ?st2)"
    by code_simp
  have e2: "error ?st2 \<noteq> []"
    by simp
  have t: "map_option type_index (parse 5 (Demangler_init ''?0@3H'')) = Some 1"
    by code_simp
  have m: "map_option error (parse 5 (Demangler_init ''?0@3H'')) = Some ''unknown primitive type: 0@3H''"
    by code_simp
  from t m obtain d where d: "parse 5 (Demangler_init ''?0@3H'') = Some d"
    and ti: "type_index d = 1" and ed: "error d = ''unknown primitive type: 0@3H''"
    by (cases "parse 5 (Demangler_init ''?0@3H'')") auto
  have id: "in_type_buffer d"
    using ti by (simp add: in_type_buffer_def type_buffer_size_def)
  have "\<forall>r. read_var_type 2 Type_default ?st = Some r \<and> in_type_buffer (snd r) \<longrightarrow> error (snd r) \<noteq> []"
    using error_slot_stays_set [where st = ?st and n = 2 and ty = Type_default] a a' by blast
  with b i have f: "error ?st' \<noteq> []"
    by simp
  have "\<forall>cs w st2 d. read_name 5 (Demangler_init cs) = Some (w, st2) \<and> error st2 \<noteq> [] \<and>
          parse 5 (Demangler_init (CHR ''?'' # cs)) = Some d \<and> in_type_buffer d \<longrightarrow>
          error d \<noteq> [] \<and> demangle 5 (CHR ''?'' # cs) = Some (Inl (error d))"
    using error_slot_stays_set [where n = 5] by blast
  then have "read_name 5 (Demangler_init ''0@3H'') = Some ([], ?st2) \<and> error ?st2 \<noteq> [] \<and>
          parse 5 (Demangler_init (CHR ''?'' # ''0@3H'')) = Some d \<and> in_type_buffer d \<longrightarrow>
          error d \<noteq> [] \<and> demangle 5 (CHR ''?'' # ''0@3H'') = Some (Inl (error d))"
    by blast
  with rn e2 d id have "demangle 5 ''?0@3H'' = Some (Inl (error d))"
    by simp
  then have "demangle 5 ''?0@3H'' = Some (Inl ''unknown primitive type: 0@3H'')"
    using ed by simp
  with a a' b i f rn t show ?thesis by blast
qed

text \<open>
  On \<open>?f@@\<close> the first error is the one of \<open>read_func_class\<close>. \<open>read_calling_conv\<close>
  runs after it and replaces the message, and \<open>demangle\<close> returns a third message, the
  one of \<open>read_prim_type\<close>.
\<close>

theorem later_error_overwrites:
  "(case read_name 5 (snd (consume ''?'' (Demangler_init ''?f@@''))) of
      None \<Rightarrow> False
    | Some (v, st) \<Rightarrow>
        error st = [] \<and>
        error (snd (read_func_class st)) = ''unknown func class: '' \<and>
        error (snd (read_calling_conv (snd (consume ''E'' (snd (read_func_class st))))))
          = ''unknown calling convention: '') \<and>
   demangle 5 ''?f@@'' = Some (Inl ''unknown primitive type: '')"
  by code_simp

section \<open>The back-reference table\<close>
















section \<open>Bytes behind the parsed part\<close>

text \<open>
  What a read returns does not depend on the bytes behind the part of the input that it
  consumed, as long as it ends without an error.
\<close>

lemma more_input_sel [simp]:
  "input (more_input r st) = input st @ r"
  "error (more_input r st) = error st"
  "repeated_names (more_input r st) = repeated_names st"
  "type_index (more_input r st) = type_index st"
  "type (more_input r st) = type st"
  "symbol (more_input r st) = symbol st"
  by (simp_all add: more_input_def)

lemma more_input_input: "(more_input r st)\<lparr>input := x @ r\<rparr> = more_input r (st\<lparr>input := x\<rparr>)"
  by (simp add: more_input_def)

lemma more_input_error: "(more_input r st)\<lparr>error := e\<rparr> = more_input r (st\<lparr>error := e\<rparr>)"
  by (simp add: more_input_def)

lemma more_input_names:
  "(more_input r st)\<lparr>repeated_names := t\<rparr> = more_input r (st\<lparr>repeated_names := t\<rparr>)"
  by (simp add: more_input_def)

lemma more_input_symbol: "(more_input r st)\<lparr>symbol := t\<rparr> = more_input r (st\<lparr>symbol := t\<rparr>)"
  by (simp add: more_input_def)

lemma more_input_type: "(more_input r st)\<lparr>type := t\<rparr> = more_input r (st\<lparr>type := t\<rparr>)"
  by (simp add: more_input_def)

lemma alloc_more_input: "alloc (more_input r st) = (fst (alloc st), more_input r (snd (alloc st)))"
  by (simp add: alloc_def more_input_def)

lemma short_of_1: "short_of i [a] = (i = [])"
  by (auto simp: short_of_def)

lemma short_of_2: "short_of i [a, b] = (i = [] \<or> i = [a])"
  by (cases i; cases "tl i") (auto simp: short_of_def)

lemma short_of_3: "short_of i [a, b, c] = (i = [] \<or> i = [a] \<or> i = [a, b])"
  by (cases i; cases "tl i"; cases "tl (tl i)") (auto simp: short_of_def)

lemma startswith_more:
  assumes "\<not> short_of i s"
  shows "startswith (i @ r) s = startswith i s"
proof (cases "length s \<le> length i")
  case True
  then show ?thesis by (simp add: startswith_def)
next
  case False
  then have l: "length i < length s" by simp
  have "\<not> startswith (i @ r) s"
  proof
    assume "startswith (i @ r) s"
    then have "take (length s) (i @ r) = s" by (simp add: startswith_def)
    then have "take (length i) s = take (length i) (take (length s) (i @ r))" by simp
    also have "\<dots> = i" using l by (simp add: min_def)
    finally show False using assms l by (simp add: short_of_def)
  qed
  moreover have "\<not> startswith i s" using l by (simp add: startswith_def)
  ultimately show ?thesis by simp
qed

lemma consume_more:
  assumes "\<not> short_of (input st) s"
  shows "consume s (more_input r st) = (fst (consume s st), more_input r (snd (consume s st)))"
proof (cases "startswith (input st) s")
  case True
  then have "length s \<le> length (input st)" by (simp add: startswith_def)
  with True show ?thesis
    by (simp add: consume_def startswith_more [OF assms] trim_def more_input_def)
next
  case False
  then show ?thesis
    by (simp add: consume_def startswith_more [OF assms])
qed

lemma consume_short: "short_of (input st) s \<Longrightarrow> consume s st = (False, st)"
  by (simp add: consume_def startswith_def short_of_def)

lemma consume_empty: "input st = [] \<Longrightarrow> consume (c # cs) st = (False, st)"
  by (simp add: consume_def startswith_def)

lemma trim_more: "n \<le> length i \<Longrightarrow> trim n (i @ r) = trim n i @ r"
  by (simp add: trim_def)

subsection \<open>Strings\<close>

lemma read_string_loop_more:
  "read_string_loop s i = Some j \<Longrightarrow> read_string_loop (s @ r) i = Some j"
  by (induction s arbitrary: i) (auto split: if_splits)

lemma read_string_loop_bound:
  "read_string_loop s i = Some j \<Longrightarrow> i \<le> j \<and> j < i + length s"
  by (induction s arbitrary: i) (fastforce split: if_splits)+

lemma read_string_more:
  assumes "error (snd (read_string st)) = []"
  shows "read_string (more_input r st) = (fst (read_string st), more_input r (snd (read_string st)))"
proof (cases "read_string_loop (input st) 0")
  case None
  with assms show ?thesis by (simp add: read_string_def)
next
  case (Some j)
  from read_string_loop_bound [OF Some] have "j < length (input st)" by simp
  with Some read_string_loop_more [OF Some, of r] show ?thesis
    by (simp add: read_string_def trim_more more_input_input Suc_le_eq)
qed

subsection \<open>Numbers\<close>

lemma read_number_loop_more:
  "read_number_loop s i ret = Some x \<Longrightarrow> read_number_loop (s @ r) i ret = Some x"
  by (induction s arbitrary: i ret) (auto split: if_splits)

lemma read_number_loop_bound:
  "read_number_loop s i ret = Some (j, v) \<Longrightarrow> j < i + length s"
  by (induction s arbitrary: i ret) (fastforce split: if_splits)+

text \<open>A number that is read without an error ends inside the input it was given.\<close>

lemma read_number_more:
  assumes e: "error (snd (read_number st)) = []"
  shows "read_number (more_input r st) = (fst (read_number st), more_input r (snd (read_number st)))"
proof -
  let ?st1 = "snd (consume ''?'' st)"
  have ne: "input ?st1 \<noteq> []"
  proof
    assume "input ?st1 = []"
    then have "error (snd (read_number st)) = ''bad number''"
      by (simp add: read_number_def split_beta)
    with e show False by simp
  qed
  then have ne0: "input st \<noteq> []"
    by (auto simp: consume_def startswith_def split: if_splits)
  then have c: "consume ''?'' (more_input r st) = (fst (consume ''?'' st), more_input r ?st1)"
    by (simp add: consume_more short_of_1)
  show ?thesis
  proof (cases "is_digit (hd (input ?st1))")
    case True
    with ne show ?thesis
      by (simp add: read_number_def split_beta c Let_def trim_more more_input_input Suc_le_eq)
  next
    case False
    show ?thesis
    proof (cases "read_number_loop (input ?st1) 0 0")
      case None
      with False e show ?thesis
        by (simp add: read_number_def split_beta)
    next
      case (Some x)
      obtain j v where x: "x = (j, v)" by (cases x)
      from read_number_loop_bound [of "input ?st1" 0 0 j v] Some x
      have "j < length (input ?st1)" by simp
      with False ne Some x read_number_loop_more [OF Some, of r] show ?thesis
        by (simp add: read_number_def split_beta c trim_more more_input_input Suc_le_eq)
    qed
  qed
qed


subsection \<open>Tables\<close>

lemma get_more: "i \<noteq> [] \<Longrightarrow> get (i @ r) = (fst (get i), snd (get i) @ r)"
  by (cases i) (simp_all add: get_def)

lemma unget_more: "unget c (i @ r) (s @ r) = unget c i s @ r"
  by (simp add: unget_def)

lemma read_storage_class_more:
  assumes "input st \<noteq> []"
  shows "read_storage_class (more_input r st)
           = (fst (read_storage_class st), more_input r (snd (read_storage_class st)))"
  using assms
  by (simp add: read_storage_class_def get_more split_beta unget_more more_input_input
      split: option.splits)

lemma read_storage_class_empty: "input st = [] \<Longrightarrow> input (snd (read_storage_class st)) = []"
  by (simp add: read_storage_class_def get_def storage_class_table_def ord_def char_int_def
      unget_def)

lemma read_storage_class_error: "error (snd (read_storage_class st)) = error st"
  by (simp add: read_storage_class_def split_beta split: option.splits)

lemma read_prim_type_fail_short:
  assumes "prim_type_table (fst (get (input st))) = None"
    and "length (unget (fst (get (input st))) (input st) (snd (get (input st)))) < 2"
  shows "error (snd (read_prim_type st)) \<noteq> []"
  using assms
  by (simp add: read_prim_type_def split_beta Let_def consume_def startswith_def)

lemma read_prim_type_more:
  assumes e: "error (snd (read_prim_type st)) = []"
  shows "read_prim_type (more_input r st)
           = (fst (read_prim_type st), more_input r (snd (read_prim_type st)))"
proof (cases "input st")
  case Nil
  then have "error (snd (read_prim_type st)) \<noteq> []"
    by (intro read_prim_type_fail_short)
       (simp_all add: get_def prim_type_table_def ord_def char_int_def unget_def)
  with e show ?thesis by simp
next
  case (Cons c cs)
  then have ne: "input st \<noteq> []" by simp
  show ?thesis
  proof (cases "prim_type_table (fst (get (input st)))")
    case (Some v)
    with ne show ?thesis
      by (simp add: read_prim_type_def get_more split_beta more_input_input)
  next
    case None
    let ?i0 = "unget (fst (get (input st))) (input st) (snd (get (input st)))"
    let ?st0 = "st\<lparr>input := ?i0\<rparr>"
    have l: "2 \<le> length ?i0"
    proof (rule ccontr)
      assume "\<not> 2 \<le> length ?i0"
      then have "length ?i0 < 2" by simp
      from read_prim_type_fail_short [OF None this] e show False by simp
    qed
    have s: "\<not> short_of (input ?st0) [a, b]" for a b
      using l by (auto simp: short_of_2)
    have m: "(more_input r st)\<lparr>input := ?i0 @ r\<rparr> = more_input r ?st0"
      by (simp add: more_input_input)
    have x: "more_input r ?st0\<lparr>error := ''unknown primitive type: '' @ ?i0 @ r\<rparr>
               = more_input r (?st0\<lparr>error := ''unknown primitive type: '' @ ?i0 @ r\<rparr>)"
      by (simp add: more_input_error)
    from e None have ok: "fst (consume ''_N'' ?st0) \<or> fst (consume ''_J'' ?st0) \<or>
        fst (consume ''_K'' ?st0) \<or> fst (consume ''_W'' ?st0)"
      by (auto simp: read_prim_type_def split_beta Let_def split: if_splits)
    with None ne show ?thesis
      by (auto simp: read_prim_type_def get_more split_beta unget_more m Let_def
          consume_more [OF s])
  qed
qed

lemma read_prim_type_ok_hd:
  assumes e: "error (snd (read_prim_type st)) = []"
  shows "input st \<noteq> [] \<and> hd (input st) \<noteq> CHR ''W'' \<and> hd (input st) \<noteq> CHR ''$''
         \<and> hd (input st) \<noteq> CHR ''@'' \<and> hd (input st) \<noteq> CHR ''6''"
proof (cases "input st")
  case Nil
  with e show ?thesis
    by (simp add: read_prim_type_def get_def prim_type_table_def ord_def char_int_def unget_def
        consume_def startswith_def)
next
  case (Cons c cs)
  with e show ?thesis
    by (auto simp: read_prim_type_def get_def prim_type_table_def ord_def char_int_def unget_def
        consume_def startswith_def Let_def)
qed

subsection \<open>Arrays\<close>

lemma read_array_dims_more:
  assumes s: "error (snd (read_array_dims k st)) = []"
  shows "read_array_dims k (more_input r st)
           = (fst (read_array_dims k st), more_input r (snd (read_array_dims k st)))"
  using s
proof (induction k arbitrary: st)
  case 0
  show ?case by simp
next
  case (Suc k)
  let ?st1 = "snd (read_number st)"
  let ?st2 = "snd (alloc ?st1)"
  from Suc.prems have e3: "error (snd (read_array_dims k ?st2)) = []"
    by (simp add: split_beta)
  have e2: "error ?st2 = []"
  proof (rule ccontr)
    assume "error ?st2 \<noteq> []"
    from stable_read_array_dims [OF stable_error_set this] e3 show False by simp
  qed
  then have e1: "error ?st1 = []"
    by (simp add: alloc_def)
  show ?case
    by (simp add: split_beta read_number_more [OF e1] alloc_more_input Suc.IH [OF e3])
qed

lemma read_array_qualifiers_error:
  "input (snd (consume ''$$C'' st)) = [] \<Longrightarrow> fst (consume ''$$C'' st) \<Longrightarrow>
   error (snd (read_array_qualifiers ty st)) \<noteq> []"
  by (simp add: read_array_qualifiers_def Let_def consume_empty)

lemma read_array_qualifiers_more:
  assumes e: "error (snd (read_array_qualifiers ty st)) = []"
    and n: "\<not> short_of (input st) ''$$C''"
  shows "read_array_qualifiers ty (more_input r st)
           = (fst (read_array_qualifiers ty st), more_input r (snd (read_array_qualifiers ty st)))"
proof (cases "fst (consume ''$$C'' st)")
  case False
  then show ?thesis
    by (simp add: read_array_qualifiers_def consume_more [OF n])
next
  case True
  let ?st1 = "snd (consume ''$$C'' st)"
  have "input ?st1 \<noteq> []"
    using read_array_qualifiers_error [OF _ True] e by blast
  then have s: "\<not> short_of (input ?st1) [a]" for a
    by (simp add: short_of_1)
  have x: "more_input r ?st1\<lparr>error := ''unkonwn storage class: '' @ input ?st1 @ r\<rparr>
             = more_input r (?st1\<lparr>error := ''unkonwn storage class: '' @ input ?st1 @ r\<rparr>)"
    by (simp add: more_input_error)
  from e True have "fst (consume ''B'' ?st1) \<or> fst (consume ''C'' ?st1) \<or>
      fst (consume ''D'' ?st1) \<or> fst (consume ''A'' ?st1)"
    by (auto simp: read_array_qualifiers_def Let_def split: if_splits)
  with True show ?thesis
    by (auto simp: read_array_qualifiers_def consume_more [OF n] Let_def consume_more [OF s])
qed

lemma read_array_qualifiers_short:
  "short_of (input st) ''$$C'' \<Longrightarrow> read_array_qualifiers ty st = (ty, st)"
  by (simp add: read_array_qualifiers_def consume_short)

lemma error_kept_read_name_loop:
  "read_name_loop n v st = Some y \<Longrightarrow> error (snd y) = [] \<Longrightarrow> error st = []"
  using stable_read_name_loop [OF stable_error_set, of st n v y] by blast

lemma read_name_loop_more:
  "read_name_loop n v st = Some (v', st') \<Longrightarrow> error st' = [] \<Longrightarrow>
   read_name_loop n v (more_input r st) = Some (v', more_input r st')"
proof (induction n arbitrary: v st)
  case 0
  then show ?case by simp
next
  case (Suc n)
  have ne: "input st \<noteq> []"
  proof
    assume "input st = []"
    then have "read_name_loop (Suc n) v st = None"
      by (intro read_name_loop_diverges) simp_all
    with Suc.prems(1) show False by simp
  qed
  then have c: "consume ''@'' (more_input r st)
                  = (fst (consume ''@'' st), more_input r (snd (consume ''@'' st)))"
    by (simp add: consume_more short_of_1)
  have h: "hd (input st @ r) = hd (input st)"
    using ne by simp
  have t: "(more_input r st)\<lparr>input := trim (Suc 0) (input st @ r)\<rparr>
             = more_input r (st\<lparr>input := trim (Suc 0) (input st)\<rparr>)"
    using ne by (simp add: trim_more more_input_input Suc_le_eq)
  show ?case
  proof (cases "fst (consume ''@'' st)")
    case True
    with Suc.prems(1) have "v' = v" "st' = snd (consume ''@'' st)"
      by (auto simp: split_beta)
    with True show ?thesis
      by (simp add: c split_beta)
  next
    case nc: False
    show ?thesis
    proof (cases "is_digit (hd (input st))")
      case True
      let ?i = "nat (char_int (hd (input st)) - char_int (CHR ''0''))"
      show ?thesis
      proof (cases "?i \<ge> length (repeated_names st)")
        case big: True
        with nc True ne Suc.prems(1) have "error st' \<noteq> []"
          by (auto simp: split_beta Let_def)
        with Suc.prems(2) show ?thesis by simp
      next
        case False
        with nc True ne Suc.prems(1) have
          "read_name_loop n (v @ [repeated_names st ! ?i]) (st\<lparr>input := trim 1 (input st)\<rparr>)
             = Some (v', st')"
          by (simp add: split_beta Let_def)
        from Suc.IH [OF this Suc.prems(2)] nc True ne False show ?thesis
          by (simp add: c split_beta Let_def h t)
      qed
    next
      case nd: False
      let ?s = "fst (read_string st)"
      let ?st2 = "snd (read_string st)"
      let ?st3 = "if length (repeated_names ?st2) < 10
                  then ?st2\<lparr>repeated_names := repeated_names ?st2 @ [?s]\<rparr> else ?st2"
      from nc nd Suc.prems(1) have r: "read_name_loop n (v @ [?s]) ?st3 = Some (v', st')"
        by (simp add: split_beta Let_def)
      from error_kept_read_name_loop [OF r] Suc.prems(2) have "error ?st3 = []"
        by simp
      then have e2: "error ?st2 = []"
        by (simp split: if_splits)
      from Suc.IH [OF r Suc.prems(2)] nc nd show ?thesis
        by (cases "length (repeated_names ?st2) < 10")
           (simp_all add: c split_beta Let_def h read_string_more [OF e2] more_input_names)
    qed
  qed
qed

lemma read_name_more:
  "read_name n st = Some (v', st') \<Longrightarrow> error st' = [] \<Longrightarrow>
   read_name n (more_input r st) = Some (v', more_input r st')"
  unfolding read_name_def by (rule read_name_loop_more)

text \<open>Inputs at which \<open>read_var_type\<close> cannot succeed.\<close>

lemma rvt_fails:
  assumes "\<forall>pat \<in> set [''T'', ''U'', ''V'', ''W4'', ''P6A'', ''A'', ''P'', ''Q'', ''Y''].
             \<not> startswith (input st) pat"
    and "error (snd (read_prim_type st)) \<noteq> []"
    and "read_var_type n ty st = Some y"
  shows "error (snd y) \<noteq> []"
proof (cases n)
  case 0
  with assms(3) show ?thesis by simp
next
  case (Suc m)
  with assms(3) have "read_var_type (Suc m) ty st = Some y"
    by simp
  then have "snd y = snd (read_prim_type st)"
    unfolding rvt_prim [OF assms(1)] by (auto simp: split_beta)
  with assms(2) show ?thesis by simp
qed

lemma rvt_doomed:
  assumes "input st \<in> set [[], ''6'', ''W'', ''$'', ''$$'', ''@'']"
    and "read_var_type n ty st = Some y"
  shows "error (snd y) \<noteq> []"
proof (rule rvt_fails [OF _ _ assms(2)])
  show "\<forall>pat \<in> set [''T'', ''U'', ''V'', ''W4'', ''P6A'', ''A'', ''P'', ''Q'', ''Y''].
             \<not> startswith (input st) pat"
    using assms(1) by (auto simp: startswith_def)
  have "input st = [] \<or> hd (input st) = CHR ''W'' \<or> hd (input st) = CHR ''$'' \<or>
        hd (input st) = CHR ''@'' \<or> hd (input st) = CHR ''6''"
    using assms(1) by auto
  then show "error (snd (read_prim_type st)) \<noteq> []"
    using read_prim_type_ok_hd [of st] by blast
qed

lemma error_kept_read_var_type:
  "read_var_type n ty st = Some y \<Longrightarrow> error (snd y) = [] \<Longrightarrow> error st = []"
  using stable_read_var_type [OF stable_error_set, of st n ty y] by blast

lemma error_kept_read_fn_params:
  "read_fn_params n ps st = Some y \<Longrightarrow> error (snd y) = [] \<Longrightarrow> error st = []"
  using stable_read_fn_params [OF stable_error_set, of st n ps y] by blast

lemma error_kept_read_class_params:
  "read_class_params n ps st = Some y \<Longrightarrow> error (snd y) = [] \<Longrightarrow> error st = []"
  using stable_read_class_params [OF stable_error_set, of st n ps y] by blast

lemma error_kept_read_array_dims:
  "error (snd (read_array_dims k st)) = [] \<Longrightarrow> error st = []"
  using stable_read_array_dims [OF stable_error_set, of st k] by blast

lemma error_kept_read_array_qualifiers:
  "error (snd (read_array_qualifiers ty st)) = [] \<Longrightarrow> error st = []"
  using stable_read_array_qualifiers [OF stable_error_set, of st ty] by blast

lemma error_kept_read_number:
  "error (snd (read_number st)) = [] \<Longrightarrow> error st = []"
  using stable_read_number [OF stable_error_set, of st] by blast

lemma input_alloc: "input (snd (alloc st)) = input st"
  by (simp add: alloc_def)

lemma error_alloc: "error (snd (alloc st)) = error st"
  by (simp add: alloc_def)

text \<open>
  The part that the cases \<open>A\<close>, \<open>P\<close> and \<open>Q\<close> of \<open>read_var_type\<close> share: the optional
  \<open>E\<close>, the node, the storage class and the pointee.
\<close>

lemma pointee_more:
  assumes v: "\<And>ty st y. read_var_type n ty st = Some y \<Longrightarrow> error (snd y) = [] \<Longrightarrow>
                read_var_type n ty (more_input r st) = Some (fst y, more_input r (snd y))"
    and e: "(case read_var_type n
               (set_sclass (fst (read_storage_class (snd (alloc (snd (consume ''E'' st))))))
                  Type_default)
               (snd (read_storage_class (snd (alloc (snd (consume ''E'' st)))))) of
               None \<Rightarrow> None
             | Some (p, st4) \<Rightarrow> Some (g p, st4)) = Some y"
    and z: "error (snd y) = []"
  shows "(case read_var_type n
               (set_sclass (fst (read_storage_class (snd (alloc (snd (consume ''E'' (more_input r st)))))))
                  Type_default)
               (snd (read_storage_class (snd (alloc (snd (consume ''E'' (more_input r st))))))) of
               None \<Rightarrow> None
             | Some (p, st4) \<Rightarrow> Some (g p, st4)) = Some (fst y, more_input r (snd y))"
proof -
  let ?s2 = "snd (alloc (snd (consume ''E'' st)))"
  let ?s3 = "snd (read_storage_class ?s2)"
  let ?t = "set_sclass (fst (read_storage_class ?s2)) Type_default"
  from e obtain q where q: "read_var_type n ?t ?s3 = Some q"
    and y: "(case q of (p, st4) \<Rightarrow> Some (g p, st4)) = Some y"
    by (rule case_option_SomeE)
  from y have yq: "y = (g (fst q), snd q)"
    by (auto split: prod.splits)
  with z have zq: "error (snd q) = []" by simp
  have n3: "input ?s3 \<noteq> []"
  proof
    assume "input ?s3 = []"
    then have "input ?s3 \<in> set [[], ''6'', ''W'', ''$'', ''$$'', ''@'']" by simp
    from rvt_doomed [OF this q] zq show False by simp
  qed
  have n2: "input ?s2 \<noteq> []"
    using n3 read_storage_class_empty [of ?s2] by blast
  then have n0: "input st \<noteq> []"
    by (auto simp: input_alloc consume_def startswith_def split: if_splits)
  have c: "consume ''E'' (more_input r st)
             = (fst (consume ''E'' st), more_input r (snd (consume ''E'' st)))"
    using n0 by (simp add: consume_more short_of_1)
  have s2: "snd (alloc (snd (consume ''E'' (more_input r st)))) = more_input r ?s2"
    by (simp add: c alloc_more_input)
  have s3: "read_storage_class (more_input r ?s2) = (fst (read_storage_class ?s2), more_input r ?s3)"
    by (rule read_storage_class_more [OF n2])
  from v [OF q zq] show ?thesis
    by (simp add: s2 s3 yq)
qed

lemma pointee_doomed:
  assumes e: "(case read_var_type n
               (set_sclass (fst (read_storage_class (snd (alloc (snd (consume ''E'' st))))))
                  Type_default)
               (snd (read_storage_class (snd (alloc (snd (consume ''E'' st)))))) of
               None \<Rightarrow> None
             | Some (p, st4) \<Rightarrow> Some (g p, st4)) = Some y"
    and z: "error (snd y) = []"
  shows "input st \<noteq> [] \<and> input st \<noteq> ''6''"
proof -
  let ?s2 = "snd (alloc (snd (consume ''E'' st)))"
  let ?s3 = "snd (read_storage_class ?s2)"
  let ?t = "set_sclass (fst (read_storage_class ?s2)) Type_default"
  from e obtain q where q: "read_var_type n ?t ?s3 = Some q"
    and y: "(case q of (p, st4) \<Rightarrow> Some (g p, st4)) = Some y"
    by (rule case_option_SomeE)
  from y z have zq: "error (snd q) = []"
    by (auto split: prod.splits)
  have "input ?s3 \<in> set [[], ''6'', ''W'', ''$'', ''$$'', ''@'']"
    if "input st = [] \<or> input st = ''6''"
    using that
    by (auto simp: read_storage_class_def get_def storage_class_table_def ord_def char_int_def
        unget_def consume_def startswith_def alloc_def)
  with rvt_doomed [OF _ q] zq show ?thesis by blast
qed

lemma read_var_type_Suc_more:
  assumes v: "\<And>ty st y. read_var_type n ty st = Some y \<Longrightarrow> error (snd y) = [] \<Longrightarrow>
                read_var_type n ty (more_input r st) = Some (fst y, more_input r (snd y))"
    and f: "\<And>ps st y. read_fn_params n ps st = Some y \<Longrightarrow> error (snd y) = [] \<Longrightarrow>
                read_fn_params n ps (more_input r st) = Some (fst y, more_input r (snd y))"
    and k: "\<And>p ty st y. read_class n p ty st = Some y \<Longrightarrow> error (snd y) = [] \<Longrightarrow>
                read_class n p ty (more_input r st) = Some (fst y, more_input r (snd y))"
    and e: "read_var_type (Suc n) ty st = Some y"
    and z: "error (snd y) = []"
  shows "read_var_type (Suc n) ty (more_input r st) = Some (fst y, more_input r (snd y))"
proof (cases rule: rvt_shapes [of "input st"])
  case (T cs)
  then have i: "input (more_input r st) = CHR ''T'' # (cs @ r)" by simp
  from e have "read_class n UnionTy ty (st\<lparr>input := cs\<rparr>) = Some y"
    unfolding rvt_T [OF T] .
  from k [OF this z] show ?thesis
    unfolding rvt_T [OF i] by (simp add: more_input_input)
next
  case (U cs)
  then have i: "input (more_input r st) = CHR ''U'' # (cs @ r)" by simp
  from e have "read_class n Struct ty (st\<lparr>input := cs\<rparr>) = Some y"
    unfolding rvt_U [OF U] .
  from k [OF this z] show ?thesis
    unfolding rvt_U [OF i] by (simp add: more_input_input)
next
  case (V cs)
  then have i: "input (more_input r st) = CHR ''V'' # (cs @ r)" by simp
  from e have "read_class n Class ty (st\<lparr>input := cs\<rparr>) = Some y"
    unfolding rvt_V [OF V] .
  from k [OF this z] show ?thesis
    unfolding rvt_V [OF i] by (simp add: more_input_input)
next
  case (W4 cs)
  then have i: "input (more_input r st) = CHR ''W'' # CHR ''4'' # (cs @ r)" by simp
  from e obtain q where q: "read_name n (st\<lparr>input := cs\<rparr>) = Some q"
    and y: "(case q of (v, st1) \<Rightarrow> Some (set_name v (set_prim Enum ty), st1)) = Some y"
    unfolding rvt_W4 [OF W4] by (rule case_option_SomeE)
  from y have yq: "y = (set_name (fst q) (set_prim Enum ty), snd q)"
    by (auto split: prod.splits)
  have "read_name n (more_input r (st\<lparr>input := cs\<rparr>)) = Some (fst q, more_input r (snd q))"
    using read_name_more [of n "st\<lparr>input := cs\<rparr>" "fst q" "snd q" r] q z yq by simp
  then show ?thesis
    unfolding rvt_W4 [OF i] by (simp add: more_input_input yq)
next
  case (P6A cs)
  then have i: "input (more_input r st) = CHR ''P'' # CHR ''6'' # CHR ''A'' # (cs @ r)" by simp
  from e obtain q where
    q: "read_var_type n Type_default (snd (alloc (snd (alloc (st\<lparr>input := cs\<rparr>))))) = Some q"
    and y1: "(case q of (ret, st3) \<Rightarrow>
              (case read_fn_params n [] st3 of
                 None \<Rightarrow> None
               | Some (ps, st4) \<Rightarrow>
                   Some (set_ptr (set_params ps (set_ptr ret (set_prim Function Type_default)))
                           (set_prim Ptr ty), st4))) = Some y"
    unfolding rvt_P6A [OF P6A] by (rule case_option_SomeE)
  from y1 obtain w where w: "read_fn_params n [] (snd q) = Some w"
    and yw: "y = (set_ptr (set_params (fst w) (set_ptr (fst q) (set_prim Function Type_default)))
                    (set_prim Ptr ty), snd w)"
    by (auto split: prod.splits option.splits)
  from z yw have zw: "error (snd w) = []" by simp
  have zq: "error (snd q) = []"
    by (rule error_kept_read_fn_params [OF w zw])
  from v [OF q zq] f [OF w zw] show ?thesis
    unfolding rvt_P6A [OF i] by (simp add: more_input_input alloc_more_input yw)
next
  case (A cs)
  then have i: "input (more_input r st) = CHR ''A'' # (cs @ r)" by simp
  from e have b: "(case read_var_type n
             (set_sclass (fst (read_storage_class (snd (alloc (snd (consume ''E'' (st\<lparr>input := cs\<rparr>)))))))
                Type_default)
             (snd (read_storage_class (snd (alloc (snd (consume ''E'' (st\<lparr>input := cs\<rparr>))))))) of
        None \<Rightarrow> None
      | Some (p, st4) \<Rightarrow> Some (set_ptr p (set_prim Ref ty), st4)) = Some y"
    unfolding rvt_A [OF A] .
  show ?thesis
    unfolding rvt_A [OF i] more_input_input
    by (rule pointee_more [OF v b z])
next
  case (P cs)
  then have i: "input (more_input r st) = CHR ''P'' # (cs @ r)" by simp
  from e have b: "(case read_var_type n
             (set_sclass (fst (read_storage_class (snd (alloc (snd (consume ''E'' (st\<lparr>input := cs\<rparr>)))))))
                Type_default)
             (snd (read_storage_class (snd (alloc (snd (consume ''E'' (st\<lparr>input := cs\<rparr>))))))) of
        None \<Rightarrow> None
      | Some (p, st4) \<Rightarrow> Some (set_ptr p (set_prim Ptr ty), st4)) = Some y"
    unfolding rvt_P [OF P] .
  from pointee_doomed [OF b z] have "\<not> short_of cs ''6A''"
    by (simp add: short_of_2)
  with P(2) have n: "\<not> startswith (cs @ r) ''6A''"
    by (simp add: startswith_more)
  show ?thesis
    unfolding rvt_P [OF i n] more_input_input
    by (rule pointee_more [OF v b z])
next
  case (Q cs)
  then have i: "input (more_input r st) = CHR ''Q'' # (cs @ r)" by simp
  from e have b: "(case read_var_type n
             (set_sclass (fst (read_storage_class (snd (alloc (snd (consume ''E'' (st\<lparr>input := cs\<rparr>)))))))
                Type_default)
             (snd (read_storage_class (snd (alloc (snd (consume ''E'' (st\<lparr>input := cs\<rparr>))))))) of
        None \<Rightarrow> None
      | Some (p, st4) \<Rightarrow> Some (set_ptr p (set_sclass Const (set_prim Ptr ty)), st4)) = Some y"
    unfolding rvt_Q [OF Q] .
  show ?thesis
    unfolding rvt_Q [OF i] more_input_input
    by (rule pointee_more [OF v b z])
next
  case (Y cs)
  then have i: "input (more_input r st) = CHR ''Y'' # (cs @ r)" by simp
  let ?s0 = "st\<lparr>input := cs\<rparr>"
  let ?d = "fst (read_number ?s0)"
  let ?s1 = "snd (read_number ?s0)"
  let ?k = "nat (sint ?d)"
  let ?s2 = "snd (read_array_dims ?k ?s1)"
  let ?s3 = "snd (read_array_qualifiers ty ?s2)"
  have pos: "\<not> sint ?d \<le> 0"
  proof
    assume "sint ?d \<le> 0"
    with e have "error (snd y) \<noteq> []"
      unfolding rvt_Y [OF Y] by (auto simp: split_beta Let_def)
    with z show False by simp
  qed
  with e obtain w where w: "read_var_type n Type_default ?s3 = Some w"
    and yw: "y = (array_chain (fst (read_array_qualifiers ty ?s2))
                    (fst (read_array_dims ?k ?s1)) (fst w), snd w)"
    unfolding rvt_Y [OF Y] by (auto simp: split_beta Let_def split: option.splits)
  from z yw have zw: "error (snd w) = []" by simp
  have e3: "error ?s3 = []"
    by (rule error_kept_read_var_type [OF w zw])
  have e2: "error ?s2 = []"
    by (rule error_kept_read_array_qualifiers [OF e3])
  have e1: "error ?s1 = []"
    by (rule error_kept_read_array_dims [OF e2])
  have ns: "\<not> short_of (input ?s2) ''$$C''"
  proof
    assume s: "short_of (input ?s2) ''$$C''"
    then have "input ?s3 \<in> set [[], ''6'', ''W'', ''$'', ''$$'', ''@'']"
      by (auto simp: read_array_qualifiers_short short_of_3)
    from rvt_doomed [OF this w] zw show False by simp
  qed
  have n1: "read_number (more_input r ?s0) = (?d, more_input r ?s1)"
    by (rule read_number_more [OF e1])
  have n2: "read_array_dims ?k (more_input r ?s1)
              = (fst (read_array_dims ?k ?s1), more_input r ?s2)"
    by (rule read_array_dims_more [OF e2])
  have n3: "read_array_qualifiers ty (more_input r ?s2)
              = (fst (read_array_qualifiers ty ?s2), more_input r ?s3)"
    by (rule read_array_qualifiers_more [OF e3 ns])
  from v [OF w zw] pos show ?thesis
    unfolding rvt_Y [OF i] by (simp add: more_input_input n1 n2 n3 yw split_beta Let_def)
next
  case prim
  from e have yq: "y = (set_prim (fst (read_prim_type st)) ty, snd (read_prim_type st))"
    unfolding rvt_prim [OF prim] by (auto simp: split_beta)
  with z have e1: "error (snd (read_prim_type st)) = []" by simp
  from read_prim_type_ok_hd [OF e1] obtain c cs where
    c: "input st = c # cs" "c \<noteq> CHR ''W''"
    by (cases "input st") auto
  have prim': "\<forall>pat \<in> set [''T'', ''U'', ''V'', ''W4'', ''P6A'', ''A'', ''P'', ''Q'', ''Y''].
             \<not> startswith (input (more_input r st)) pat"
    using prim c by (auto simp: startswith_def)
  show ?thesis
    unfolding rvt_prim [OF prim'] by (simp add: read_prim_type_more [OF e1] yq)
qed

lemma fst_consume: "fst (consume s st) = startswith (input st) s"
  by (simp add: consume_def)

lemma not_short_if_startswith: "startswith i s \<Longrightarrow> \<not> short_of i s"
  by (simp add: startswith_def short_of_def)

lemma read_fn_params_Suc_more:
  assumes v: "\<And>ty st y. read_var_type n ty st = Some y \<Longrightarrow> error (snd y) = [] \<Longrightarrow>
                read_var_type n ty (more_input r st) = Some (fst y, more_input r (snd y))"
    and f: "\<And>ps st y. read_fn_params n ps st = Some y \<Longrightarrow> error (snd y) = [] \<Longrightarrow>
                read_fn_params n ps (more_input r st) = Some (fst y, more_input r (snd y))"
    and e: "read_fn_params (Suc n) ps st = Some y"
    and z: "error (snd y) = []"
  shows "read_fn_params (Suc n) ps (more_input r st) = Some (fst y, more_input r (snd y))"
proof -
  have e0: "error st = []"
    by (rule error_kept_read_fn_params [OF e z])
  show ?thesis
  proof (cases "fst (consume ''@Z'' st)")
    case True
    then have "\<not> short_of (input st) ''@Z''"
      by (simp add: fst_consume not_short_if_startswith)
    with True e e0 show ?thesis
      by (auto simp: consume_more)
  next
    case n1: False
    show ?thesis
    proof (cases "fst (consume ''Z'' st)")
      case True
      then have "\<not> short_of (input st) ''@Z''" "\<not> short_of (input st) ''Z''"
        by (auto simp: fst_consume short_of_2 short_of_1 startswith_def)
      with True n1 e e0 show ?thesis
        by (auto simp: consume_more)
    next
      case n2: False
      from e e0 n1 n2 obtain q where
        q: "read_var_type n Type_default (snd (alloc st)) = Some q" and
        w: "read_fn_params n (ps @ [fst q]) (snd q) = Some y"
        by (auto split: option.splits)
      have zq: "error (snd q) = []"
        by (rule error_kept_read_fn_params [OF w z])
      have ns: "\<not> short_of (input st) ''@Z''"
      proof
        assume "short_of (input st) ''@Z''"
        then have "input (snd (alloc st)) \<in> set [[], ''6'', ''W'', ''$'', ''$$'', ''@'']"
          by (auto simp: short_of_2 input_alloc)
        from rvt_doomed [OF this q] zq show False by simp
      qed
      then have ns': "\<not> short_of (input st) ''Z''"
        by (auto simp: short_of_2 short_of_1)
      from v [OF q zq] f [OF w z] n1 n2 e0 show ?thesis
        by (simp add: consume_more [OF ns] consume_more [OF ns'] alloc_more_input)
    qed
  qed
qed

lemma read_class_params_Suc_more:
  assumes v: "\<And>ty st y. read_var_type n ty st = Some y \<Longrightarrow> error (snd y) = [] \<Longrightarrow>
                read_var_type n ty (more_input r st) = Some (fst y, more_input r (snd y))"
    and m: "\<And>ps st y. read_class_params n ps st = Some y \<Longrightarrow> error (snd y) = [] \<Longrightarrow>
                read_class_params n ps (more_input r st) = Some (fst y, more_input r (snd y))"
    and e: "read_class_params (Suc n) ps st = Some y"
    and z: "error (snd y) = []"
  shows "read_class_params (Suc n) ps (more_input r st) = Some (fst y, more_input r (snd y))"
proof -
  have e0: "error st = []"
    by (rule error_kept_read_class_params [OF e z])
  show ?thesis
  proof (cases "fst (consume ''@'' st)")
    case True
    then have "\<not> short_of (input st) ''@''"
      by (simp add: fst_consume not_short_if_startswith)
    with True e e0 show ?thesis
      by (auto simp: consume_more)
  next
    case n1: False
    from e e0 n1 obtain q where
      q: "read_var_type n Type_default (snd (alloc st)) = Some q" and
      w: "read_class_params n (ps @ [fst q]) (snd q) = Some y"
      by (auto split: option.splits)
    have zq: "error (snd q) = []"
      by (rule error_kept_read_class_params [OF w z])
    have ns: "\<not> short_of (input st) ''@''"
    proof
      assume "short_of (input st) ''@''"
      then have "input (snd (alloc st)) \<in> set [[], ''6'', ''W'', ''$'', ''$$'', ''@'']"
        by (auto simp: short_of_1 input_alloc)
      from rvt_doomed [OF this q] zq show False by simp
    qed
    from v [OF q zq] m [OF w z] n1 e0 show ?thesis
      by (simp add: consume_more [OF ns] alloc_more_input)
  qed
qed

lemma read_class_Suc_more:
  assumes m: "\<And>ps st y. read_class_params n ps st = Some y \<Longrightarrow> error (snd y) = [] \<Longrightarrow>
                read_class_params n ps (more_input r st) = Some (fst y, more_input r (snd y))"
    and e: "read_class (Suc n) p ty st = Some y"
    and z: "error (snd y) = []"
  shows "read_class (Suc n) p ty (more_input r st) = Some (fst y, more_input r (snd y))"
proof (cases "fst (consume ''?$'' st)")
  case True
  then have ns: "\<not> short_of (input st) ''?$''"
    by (simp add: fst_consume not_short_if_startswith)
  let ?pa = "snd (consume ''?$'' st)"
  let ?nm = "fst (read_string ?pa)"
  let ?pb = "snd (read_string ?pa)"
  from e True obtain w where w: "read_class_params n [] ?pb = Some w"
    and yw: "y = (set_params (params ty @ fst w) (set_name (name ty @ [?nm]) (set_prim p ty)), snd w)"
    by (auto simp: split_beta split: option.splits)
  from z yw have zw: "error (snd w) = []" by simp
  have e1: "error ?pb = []"
    by (rule error_kept_read_class_params [OF w zw])
  from m [OF w zw] True show ?thesis
    by (simp add: consume_more [OF ns] read_string_more [OF e1] yw)
next
  case False
  with e obtain q where q: "read_name n st = Some q"
    and yq: "y = (set_name (fst q) (set_prim p ty), snd q)"
    by (auto split: option.splits)
  have ns: "\<not> short_of (input st) ''?$''"
  proof
    assume "short_of (input st) ''?$''"
    then have "input st = [] \<or> input st = ''?''"
      by (simp add: short_of_2)
    then have "read_name_loop n [] st = None"
      by (intro read_name_loop_diverges) (auto simp: is_digit_def char_int_def)
    with q show False by (simp add: read_name_def)
  qed
  have "read_name n (more_input r st) = Some (fst q, more_input r (snd q))"
    using read_name_more [of n st "fst q" "snd q" r] q z yq by simp
  with False show ?thesis
    by (simp add: consume_more [OF ns] yq)
qed

lemma read_var_type_more_all:
  "(\<forall>ty st y. read_var_type n ty st = Some y \<longrightarrow> error (snd y) = [] \<longrightarrow>
      read_var_type n ty (more_input r st) = Some (fst y, more_input r (snd y))) \<and>
   (\<forall>ps st y. read_fn_params n ps st = Some y \<longrightarrow> error (snd y) = [] \<longrightarrow>
      read_fn_params n ps (more_input r st) = Some (fst y, more_input r (snd y))) \<and>
   (\<forall>p ty st y. read_class n p ty st = Some y \<longrightarrow> error (snd y) = [] \<longrightarrow>
      read_class n p ty (more_input r st) = Some (fst y, more_input r (snd y))) \<and>
   (\<forall>ps st y. read_class_params n ps st = Some y \<longrightarrow> error (snd y) = [] \<longrightarrow>
      read_class_params n ps (more_input r st) = Some (fst y, more_input r (snd y)))"
proof (induction n)
  case 0
  show ?case by simp
next
  case (Suc n)
  then have
    v: "\<And>ty st y. read_var_type n ty st = Some y \<Longrightarrow> error (snd y) = [] \<Longrightarrow>
          read_var_type n ty (more_input r st) = Some (fst y, more_input r (snd y))" and
    f: "\<And>ps st y. read_fn_params n ps st = Some y \<Longrightarrow> error (snd y) = [] \<Longrightarrow>
          read_fn_params n ps (more_input r st) = Some (fst y, more_input r (snd y))" and
    k: "\<And>p ty st y. read_class n p ty st = Some y \<Longrightarrow> error (snd y) = [] \<Longrightarrow>
          read_class n p ty (more_input r st) = Some (fst y, more_input r (snd y))" and
    m: "\<And>ps st y. read_class_params n ps st = Some y \<Longrightarrow> error (snd y) = [] \<Longrightarrow>
          read_class_params n ps (more_input r st) = Some (fst y, more_input r (snd y))"
    by blast+
  show ?case
    using read_var_type_Suc_more [OF v f k] read_fn_params_Suc_more [OF v f]
      read_class_Suc_more [OF m] read_class_params_Suc_more [OF v m]
    by blast
qed

lemma read_var_type_more:
  "read_var_type n ty st = Some (ty', st') \<Longrightarrow> error st' = [] \<Longrightarrow>
   read_var_type n ty (more_input r st) = Some (ty', more_input r st')"
  using read_var_type_more_all [of n r] by fastforce

section \<open>Variable symbols\<close>

lemma Demangler_init_more: "Demangler_init (s @ r) = more_input r (Demangler_init s)"
  by (simp add: Demangler_init_def more_input_def)

lemma input_init: "input (Demangler_init s) = s"
  by (simp add: Demangler_init_def)

lemma parse_mangled:
  assumes "startswith s ''?''"
  shows "parse n (Demangler_init s) =
    (case read_name n (snd (consume ''?'' (Demangler_init s))) of
       None \<Rightarrow> None
     | Some (v, st2) \<Rightarrow>
         if fst (consume ''3'' (st2\<lparr>symbol := v\<rparr>))
           then parse_var n (snd (consume ''3'' (st2\<lparr>symbol := v\<rparr>)))
         else if fst (consume ''Y'' (st2\<lparr>symbol := v\<rparr>))
           then parse_func n (snd (consume ''Y'' (st2\<lparr>symbol := v\<rparr>)))
         else parse_member_func n (st2\<lparr>symbol := v\<rparr>))"
  using assms by (auto simp: parse_def fst_consume input_init Let_def split: option.splits)

lemma str_more_input: "str (more_input r d) = str d"
  by (simp only: str_def more_input_sel)

lemma parse_variable_more:
  assumes sw: "startswith s ''?''"
    and rn: "read_name n (snd (consume ''?'' (Demangler_init s))) = Some (v, st2)"
    and c3: "fst (consume ''3'' (st2\<lparr>symbol := v\<rparr>))"
    and p: "parse n (Demangler_init s) = Some d"
    and z: "error d = []"
  shows "parse n (Demangler_init (s @ r)) = Some (more_input r d)"
proof -
  let ?a = "snd (consume ''3'' (st2\<lparr>symbol := v\<rparr>))"
  from p have pv: "parse_var n ?a = Some d"
    by (simp add: parse_mangled [OF sw] rn c3)
  then obtain q where q: "read_var_type n (type ?a) ?a = Some q"
    and d: "d = (snd q)\<lparr>type := fst q\<rparr>"
    by (auto simp: parse_var_def split: option.splits)
  from z d have zq: "error (snd q) = []" by simp
  have ea: "error ?a = []"
    by (rule error_kept_read_var_type [OF q zq])
  then have e2: "error st2 = []"
    by (simp add: consume_def split: if_splits)
  have sw': "startswith (s @ r) ''?''"
    using sw by (simp add: startswith_def)
  have c1: "snd (consume ''?'' (Demangler_init (s @ r)))
              = more_input r (snd (consume ''?'' (Demangler_init s)))"
    using sw
    by (simp add: Demangler_init_more consume_more not_short_if_startswith input_init)
  have rn': "read_name n (snd (consume ''?'' (Demangler_init (s @ r)))) = Some (v, more_input r st2)"
    unfolding c1 by (rule read_name_more [OF rn e2])
  have ns: "\<not> short_of (input (st2\<lparr>symbol := v\<rparr>)) ''3''"
    using c3 by (simp add: fst_consume not_short_if_startswith)
  have c3': "consume ''3'' (more_input r st2\<lparr>symbol := v\<rparr>) = (True, more_input r ?a)"
    using consume_more [OF ns, of r] c3 by (simp add: more_input_symbol)
  have "read_var_type n (type ?a) (more_input r ?a) = Some (fst q, more_input r (snd q))"
    using read_var_type_more [of n "type ?a" ?a "fst q" "snd q" r] q zq by simp
  then have "parse_var n (more_input r ?a) = Some (more_input r d)"
    by (simp add: parse_var_def d more_input_type)
  then show ?thesis
    by (simp add: parse_mangled [OF sw'] rn' c3')
qed

section \<open>The fuel\<close>

text \<open>
  More fuel never changes a result: when \<open>n\<close> steps bring a function to its end,
  so do \<open>m \<ge> n\<close> steps, with the same value.
\<close>

lemma read_name_loop_fuel:
  "read_name_loop n v st = Some y \<Longrightarrow> n \<le> m \<Longrightarrow> read_name_loop m v st = Some y"
proof (induction n arbitrary: v st m)
  case 0
  then show ?case by simp
next
  case (Suc n)
  from Suc.prems(2) obtain m' where m: "m = Suc m'" and l: "n \<le> m'"
    by (cases m) auto
  show ?case
  proof (cases "fst (consume ''@'' st)")
    case True
    with Suc.prems(1) show ?thesis
      unfolding m by (auto simp: split_beta)
  next
    case nc: False
    show ?thesis
    proof (cases "0 < length (input st) \<and> is_digit (hd (input st))")
      case d: True
      let ?i = "nat (char_int (hd (input st)) - char_int (CHR ''0''))"
      show ?thesis
      proof (cases "?i \<ge> length (repeated_names st)")
        case True
        with nc d Suc.prems(1) show ?thesis
          unfolding m by (auto simp: split_beta Let_def)
      next
        case False
        with nc d Suc.prems(1) have
          "read_name_loop n (v @ [repeated_names st ! ?i]) (st\<lparr>input := trim 1 (input st)\<rparr>)
             = Some y"
          by (auto simp: split_beta Let_def)
        from Suc.IH [OF this l] nc d False show ?thesis
          unfolding m by (auto simp: split_beta Let_def)
      qed
    next
      case nd: False
      let ?s = "fst (read_string st)"
      let ?st2 = "snd (read_string st)"
      let ?st3 = "if length (repeated_names ?st2) < 10
                  then ?st2\<lparr>repeated_names := repeated_names ?st2 @ [?s]\<rparr> else ?st2"
      from nc nd Suc.prems(1) have "read_name_loop n (v @ [?s]) ?st3 = Some y"
        by (auto simp: split_beta Let_def)
      from Suc.IH [OF this l] nc nd show ?thesis
        unfolding m by (auto simp: split_beta Let_def)
    qed
  qed
qed

lemma read_name_fuel:
  "read_name n st = Some y \<Longrightarrow> n \<le> m \<Longrightarrow> read_name m st = Some y"
  unfolding read_name_def by (rule read_name_loop_fuel)

lemma pointee_fuel:
  assumes v: "\<And>ty st y. read_var_type n ty st = Some y \<Longrightarrow> read_var_type m ty st = Some y"
    and e: "(case read_var_type n t0 s0 of None \<Rightarrow> None | Some (p, st4) \<Rightarrow> Some (g p, st4))
              = Some y"
  shows "(case read_var_type m t0 s0 of None \<Rightarrow> None | Some (p, st4) \<Rightarrow> Some (g p, st4))
              = Some y"
proof -
  from e obtain q where q: "read_var_type n t0 s0 = Some q"
    and y: "(case q of (p, st4) \<Rightarrow> Some (g p, st4)) = Some y"
    by (rule case_option_SomeE)
  from v [OF q] y show ?thesis by simp
qed

lemma read_var_type_Suc_fuel:
  assumes v: "\<And>ty st y. read_var_type n ty st = Some y \<Longrightarrow> read_var_type m ty st = Some y"
    and f: "\<And>ps st y. read_fn_params n ps st = Some y \<Longrightarrow> read_fn_params m ps st = Some y"
    and k: "\<And>p ty st y. read_class n p ty st = Some y \<Longrightarrow> read_class m p ty st = Some y"
    and l: "n \<le> m"
    and e: "read_var_type (Suc n) ty st = Some y"
  shows "read_var_type (Suc m) ty st = Some y"
proof (cases rule: rvt_shapes [of "input st"])
  case (T cs)
  from e show ?thesis unfolding rvt_T [OF T] by (rule k)
next
  case (U cs)
  from e show ?thesis unfolding rvt_U [OF U] by (rule k)
next
  case (V cs)
  from e show ?thesis unfolding rvt_V [OF V] by (rule k)
next
  case (W4 cs)
  from e obtain q where q: "read_name n (st\<lparr>input := cs\<rparr>) = Some q"
    and y: "(case q of (v, st1) \<Rightarrow> Some (set_name v (set_prim Enum ty), st1)) = Some y"
    unfolding rvt_W4 [OF W4] by (rule case_option_SomeE)
  from read_name_fuel [OF q l] y show ?thesis
    unfolding rvt_W4 [OF W4] by simp
next
  case (P6A cs)
  from e obtain q where
    q: "read_var_type n Type_default (snd (alloc (snd (alloc (st\<lparr>input := cs\<rparr>))))) = Some q"
    and y1: "(case q of (ret, st3) \<Rightarrow>
              (case read_fn_params n [] st3 of
                 None \<Rightarrow> None
               | Some (ps, st4) \<Rightarrow>
                   Some (set_ptr (set_params ps (set_ptr ret (set_prim Function Type_default)))
                           (set_prim Ptr ty), st4))) = Some y"
    unfolding rvt_P6A [OF P6A] by (rule case_option_SomeE)
  from y1 obtain w where w: "read_fn_params n [] (snd q) = Some w"
    and yw: "y = (set_ptr (set_params (fst w) (set_ptr (fst q) (set_prim Function Type_default)))
                    (set_prim Ptr ty), snd w)"
    by (auto split: prod.splits option.splits)
  from v [OF q] f [OF w] show ?thesis
    unfolding rvt_P6A [OF P6A] by (simp add: yw split_beta)
next
  case (A cs)
  show ?thesis
    unfolding rvt_A [OF A] by (rule pointee_fuel [OF v e [unfolded rvt_A [OF A]]])
next
  case (P cs)
  show ?thesis
    unfolding rvt_P [OF P] by (rule pointee_fuel [OF v e [unfolded rvt_P [OF P]]])
next
  case (Q cs)
  show ?thesis
    unfolding rvt_Q [OF Q] by (rule pointee_fuel [OF v e [unfolded rvt_Q [OF Q]]])
next
  case (Y cs)
  let ?s0 = "st\<lparr>input := cs\<rparr>"
  let ?d = "fst (read_number ?s0)"
  let ?s1 = "snd (read_number ?s0)"
  let ?k = "nat (sint ?d)"
  let ?s2 = "snd (read_array_dims ?k ?s1)"
  let ?s3 = "snd (read_array_qualifiers ty ?s2)"
  show ?thesis
  proof (cases "sint ?d \<le> 0")
    case True
    with e show ?thesis
      unfolding rvt_Y [OF Y] by (simp add: split_beta)
  next
    case False
    with e obtain w where w: "read_var_type n Type_default ?s3 = Some w"
      and yw: "y = (array_chain (fst (read_array_qualifiers ty ?s2))
                      (fst (read_array_dims ?k ?s1)) (fst w), snd w)"
      unfolding rvt_Y [OF Y] by (auto simp: split_beta Let_def split: option.splits)
    from v [OF w] False show ?thesis
      unfolding rvt_Y [OF Y] by (simp add: split_beta Let_def yw)
  qed
next
  case prim
  from e show ?thesis unfolding rvt_prim [OF prim] .
qed

lemma read_var_type_fuel_all:
  "(\<forall>m ty st y. read_var_type n ty st = Some y \<longrightarrow> n \<le> m \<longrightarrow>
      read_var_type m ty st = Some y) \<and>
   (\<forall>m ps st y. read_fn_params n ps st = Some y \<longrightarrow> n \<le> m \<longrightarrow>
      read_fn_params m ps st = Some y) \<and>
   (\<forall>m p ty st y. read_class n p ty st = Some y \<longrightarrow> n \<le> m \<longrightarrow>
      read_class m p ty st = Some y) \<and>
   (\<forall>m ps st y. read_class_params n ps st = Some y \<longrightarrow> n \<le> m \<longrightarrow>
      read_class_params m ps st = Some y)"
proof (induction n)
  case 0
  show ?case by simp
next
  case (Suc n)
  have V: "read_var_type m ty st = Some y"
    if e: "read_var_type (Suc n) ty st = Some y" and l: "Suc n \<le> m" for m ty st y
  proof -
    from l obtain m' where m: "m = Suc m'" and l': "n \<le> m'" by (cases m) auto
    from Suc l' have
      "\<And>ty st y. read_var_type n ty st = Some y \<Longrightarrow> read_var_type m' ty st = Some y"
      "\<And>ps st y. read_fn_params n ps st = Some y \<Longrightarrow> read_fn_params m' ps st = Some y"
      "\<And>p ty st y. read_class n p ty st = Some y \<Longrightarrow> read_class m' p ty st = Some y"
      by blast+
    from read_var_type_Suc_fuel [OF this l' e] show ?thesis unfolding m .
  qed
  have F: "read_fn_params m ps st = Some y"
    if e: "read_fn_params (Suc n) ps st = Some y" and l: "Suc n \<le> m" for m ps st y
  proof -
    from l obtain m' where m: "m = Suc m'" and l': "n \<le> m'" by (cases m) auto
    from Suc l' have
      v: "\<And>ty st y. read_var_type n ty st = Some y \<Longrightarrow> read_var_type m' ty st = Some y" and
      f: "\<And>ps st y. read_fn_params n ps st = Some y \<Longrightarrow> read_fn_params m' ps st = Some y"
      by blast+
    from e show ?thesis
      unfolding m by (auto split: if_splits option.splits dest!: v dest: f)
  qed
  have K: "read_class m p ty st = Some y"
    if e: "read_class (Suc n) p ty st = Some y" and l: "Suc n \<le> m" for m p ty st y
  proof -
    from l obtain m' where m: "m = Suc m'" and l': "n \<le> m'" by (cases m) auto
    from Suc l' have
      c: "\<And>ps st y. read_class_params n ps st = Some y \<Longrightarrow> read_class_params m' ps st = Some y"
      by blast
    from e show ?thesis
      unfolding m
      by (auto simp: split_beta split: if_splits option.splits
          dest!: c read_name_fuel [OF _ l'])
  qed
  have M: "read_class_params m ps st = Some y"
    if e: "read_class_params (Suc n) ps st = Some y" and l: "Suc n \<le> m" for m ps st y
  proof -
    from l obtain m' where m: "m = Suc m'" and l': "n \<le> m'" by (cases m) auto
    from Suc l' have
      v: "\<And>ty st y. read_var_type n ty st = Some y \<Longrightarrow> read_var_type m' ty st = Some y" and
      c: "\<And>ps st y. read_class_params n ps st = Some y \<Longrightarrow> read_class_params m' ps st = Some y"
      by blast+
    from e show ?thesis
      unfolding m by (auto split: if_splits option.splits dest!: v dest: c)
  qed
  from V F K M show ?case by blast
qed

lemma read_var_type_fuel:
  "read_var_type n ty st = Some y \<Longrightarrow> n \<le> m \<Longrightarrow> read_var_type m ty st = Some y"
  using read_var_type_fuel_all [of n] by blast


lemma read_func_return_type_fuel:
  assumes e: "read_func_return_type n ty st = Some y" and l: "n \<le> m"
  shows "read_func_return_type m ty st = Some y"
proof (cases "fst (consume ''@'' st)")
  case True
  with e show ?thesis by (simp add: read_func_return_type_def)
next
  case False
  with e obtain q where q: "read_var_type n ty st = Some q"
    by (cases "read_var_type n ty st") (auto simp: read_func_return_type_def)
  from e False q read_var_type_fuel [OF q l] show ?thesis
    by (simp add: read_func_return_type_def)
qed

lemma parse_params_fuel:
  "parse_params n c ps st = Some y \<Longrightarrow> n \<le> m \<Longrightarrow> parse_params m c ps st = Some y"
proof (induction n arbitrary: ps st m)
  case 0
  then show ?case by simp
next
  case (Suc n)
  from Suc.prems(2) obtain m' where m: "m = Suc m'" and l: "n \<le> m'"
    by (cases m) auto
  show ?case
  proof (cases "error st = [] \<and> input st \<noteq> [] \<and> \<not> startswith_c (input st) c")
    case True
    with Suc.prems(1) obtain q where
      q: "read_var_type n Type_default (snd (alloc st)) = Some q" and
      w: "parse_params n c (ps @ [fst q]) (snd q) = Some y"
      by (auto split: option.splits)
    from read_var_type_fuel [OF q l] Suc.IH [OF w l] True show ?thesis
      unfolding m by (simp add: split_beta)
  next
    case False
    with Suc.prems(1) show ?thesis
      unfolding m by auto
  qed
qed

lemma parse_var_fuel:
  assumes e: "parse_var n st = Some d" and l: "n \<le> m"
  shows "parse_var m st = Some d"
proof -
  from e obtain q where q: "read_var_type n (type st) st = Some q"
    by (cases "read_var_type n (type st) st") (auto simp: parse_var_def)
  from e q read_var_type_fuel [OF q l] show ?thesis
    by (simp add: parse_var_def)
qed

lemma parse_func_fuel:
  assumes e: "parse_func n st = Some d" and l: "n \<le> m"
  shows "parse_func m st = Some d"
proof -
  let ?st3 = "snd (read_storage_class_for_return (snd (alloc (snd (read_calling_conv st)))))"
  let ?t = "set_sclass (fst (read_storage_class_for_return (snd (alloc (snd (read_calling_conv st))))))
              Type_default"
  from e obtain q where q: "read_var_type n ?t ?st3 = Some q"
    by (cases "read_var_type n ?t ?st3") (auto simp: parse_func_def split_beta Let_def)
  with e obtain w where w: "parse_params n (CHR ''@'') [] (snd q) = Some w"
    by (cases "parse_params n (CHR ''@'') [] (snd q)")
       (auto simp: parse_func_def split_beta Let_def)
  from e q w read_var_type_fuel [OF q l] parse_params_fuel [OF w l] show ?thesis
    by (simp add: parse_func_def split_beta Let_def)
qed

lemma parse_member_func_fuel:
  assumes e: "parse_member_func n st = Some d" and l: "n \<le> m"
  shows "parse_member_func m st = Some d"
proof -
  let ?st4 = "snd (alloc (snd (read_calling_conv (snd (consume ''E'' (snd (read_func_class st)))))))"
  let ?st5 = "snd (read_storage_class ?st4)"
  let ?t = "set_sclass (fst (read_storage_class ?st4)) Type_default"
  from e obtain q where q: "read_func_return_type n ?t ?st5 = Some q"
    by (cases "read_func_return_type n ?t ?st5")
       (auto simp: parse_member_func_def split_beta Let_def)
  with e obtain w where w: "parse_params n (CHR ''Z'') [] (snd q) = Some w"
    by (cases "parse_params n (CHR ''Z'') [] (snd q)")
       (auto simp: parse_member_func_def split_beta Let_def)
  from e q w read_func_return_type_fuel [OF q l] parse_params_fuel [OF w l] show ?thesis
    by (simp add: parse_member_func_def split_beta Let_def)
qed

lemma parse_fuel:
  assumes e: "parse n st = Some d" and l: "n \<le> m"
  shows "parse m st = Some d"
proof -
  let ?st1 = "if \<not> fst (consume ''?'' st)
              then st\<lparr>symbol := symbol st @ [input st], type := set_prim Unknown (type st)\<rparr>
              else snd (consume ''?'' st)"
  from e obtain y where y: "read_name n ?st1 = Some y"
    and b: "(case y of (v, st2) \<Rightarrow>
              if fst (consume ''3'' (st2\<lparr>symbol := v\<rparr>))
                then parse_var n (snd (consume ''3'' (st2\<lparr>symbol := v\<rparr>)))
              else if fst (consume ''Y'' (st2\<lparr>symbol := v\<rparr>))
                then parse_func n (snd (consume ''Y'' (st2\<lparr>symbol := v\<rparr>)))
              else parse_member_func n (st2\<lparr>symbol := v\<rparr>)) = Some d"
    unfolding parse_def Let_def by (rule case_option_SomeE)
  obtain v st2 where yv: "y = (v, st2)" by (cases y)
  from b yv have "(if fst (consume ''3'' (st2\<lparr>symbol := v\<rparr>))
                then parse_var m (snd (consume ''3'' (st2\<lparr>symbol := v\<rparr>)))
              else if fst (consume ''Y'' (st2\<lparr>symbol := v\<rparr>))
                then parse_func m (snd (consume ''Y'' (st2\<lparr>symbol := v\<rparr>)))
              else parse_member_func m (st2\<lparr>symbol := v\<rparr>)) = Some d"
    by (auto split: if_splits
        intro: parse_var_fuel [OF _ l] parse_func_fuel [OF _ l] parse_member_func_fuel [OF _ l])
  with read_name_fuel [OF y l] yv show ?thesis
    unfolding parse_def Let_def by simp
qed

lemma demangle_fuel:
  assumes e: "demangle n s = Some x" and l: "n \<le> m"
  shows "demangle m s = Some x"
proof -
  from e obtain d where d: "parse n (Demangler_init s) = Some d"
    by (cases "parse n (Demangler_init s)") (simp_all add: demangle_def)
  from e d parse_fuel [OF d l] show ?thesis
    by (simp only: demangle_def option.case)
qed

section \<open>Well-formed types\<close>

text \<open>
  A type that the parser has read without an error satisfies the structural invariants,
  and the printer prints every type that satisfies them: it meets no null pointer.
\<close>

lemma wf_type_iff:
  "wf_type ty =
     ((prim ty \<in> {Function, Ptr, Ref, Array} \<longrightarrow> ptr ty \<noteq> None) \<and>
      (\<forall>q \<in> set_option (ptr ty). wf_type q) \<and> (\<forall>q \<in> set (params ty). wf_type q))"
  by (cases ty) simp

lemma sel_set [simp]:
  "prim (set_prim a t) = a" "ptr (set_prim a t) = ptr t" "params (set_prim a t) = params t"
  "prim (set_sclass b t) = prim t" "ptr (set_sclass b t) = ptr t" "params (set_sclass b t) = params t"
  "prim (set_ptr c t) = prim t" "ptr (set_ptr c t) = Some c" "params (set_ptr c t) = params t"
  "prim (set_len d t) = prim t" "ptr (set_len d t) = ptr t" "params (set_len d t) = params t"
  "prim (set_name e t) = prim t" "ptr (set_name e t) = ptr t" "params (set_name e t) = params t"
  "prim (set_params f t) = prim t" "ptr (set_params f t) = ptr t" "params (set_params f t) = f"
  "prim Type_default = Unknown" "ptr Type_default = None" "params Type_default = []"
  by (simp_all add: set_prim_def set_sclass_def set_ptr_def set_len_def set_name_def
      set_params_def Type_default_def)

text \<open>
  The equations of the printer are applied by hand in this section and the next: each of
  them holds for every node, so the simplifier would unfold them without end.
\<close>

lemmas printer_simps = write_pre.simps write_post.simps write_params.simps write_class.simps

declare printer_simps [simp del]

lemma write_params_loop_total:
  assumes "\<And>q os. q \<in> set ps \<Longrightarrow> write_pre q os \<noteq> None \<and> write_post q os \<noteq> None"
  shows "write_params_loop ps i os \<noteq> None"
  using assms
proof (induction ps arbitrary: i os)
  case Nil
  show ?case by simp
next
  case (Cons p ps)
  let ?os = "if i \<noteq> 0 then os @ '','' else os"
  from Cons.prems [of p] obtain a where a: "write_pre p ?os = Some a"
    by fastforce
  from Cons.prems [of p] obtain b where b: "write_post p a = Some b"
    by fastforce
  have e: "write_params_loop (p # ps) i os = write_params_loop ps (i + 1) b"
    by (simp only: write_params_loop.simps a b option.case)
  show ?case
    unfolding e by (rule Cons.IH) (use Cons.prems in simp)
qed

lemma write_total:
  "wf_type ty \<Longrightarrow> write_pre ty os \<noteq> None \<and> write_post ty os \<noteq> None"
proof (induction ty arbitrary: os)
  case (Type pr sc p cc fc l nm ps)
  let ?ty = "Type pr sc p cc fc l nm ps"
  from Type.prems have wp: "\<And>q. q \<in> set_option p \<Longrightarrow> wf_type q"
    and wq: "\<And>q. q \<in> set ps \<Longrightarrow> wf_type q"
    and pn: "pr \<in> {Function, Ptr, Ref, Array} \<Longrightarrow> p \<noteq> None"
    by simp_all
  have ip: "write_pre q os' \<noteq> None \<and> write_post q os' \<noteq> None" if "q \<in> set_option p" for q os'
    by (rule Type.IH(1) [OF that wp [OF that]])
  have iq: "write_pre q os' \<noteq> None \<and> write_post q os' \<noteq> None" if "q \<in> set ps" for q os'
    by (rule Type.IH(2) [OF that wq [OF that]])
  have pl: "write_params_loop ps i os' \<noteq> None" for i os'
    by (rule write_params_loop_total) (rule iq)
  have pa: "write_params ?ty os' \<noteq> None" for os'
    using pl by (simp add: write_params.simps)
  have cl: "write_class kw ?ty os' \<noteq> None" for kw os'
    using pl [of 0 "write_name nm (os' @ kw @ '' '') @ ''<''"]
    by (auto simp: Let_def write_class.simps write_params.simps simp del: write_params_loop.simps)
  note wpre = write_pre.simps [of "Type pr sc p cc fc l nm ps" os]
  note wpost = write_post.simps [of "Type pr sc p cc fc l nm ps" os]
  have pre: "write_pre ?ty os \<noteq> None"
  proof (cases "pr \<in> {Function, Ptr, Ref, Array}")
    case True
    with pn obtain q where q: "p = Some q" by auto
    from ip [of q] q obtain a where a: "write_pre q os = Some a" by fastforce
    from True show ?thesis
      unfolding wpre by (auto simp: q a)
  next
    case False
    from False cl [of "''struct''" os] cl [of "''union''" os] cl [of "''class''" os]
    show ?thesis
      unfolding wpre by (auto split: option.splits)
  qed
  have post: "write_post ?ty os \<noteq> None"
  proof (cases "pr \<in> {Ptr, Ref, Array}")
    case True
    with pn obtain q where q: "p = Some q" by auto
    from ip [of q] q have "write_post q os' \<noteq> None" for os' by simp
    with True show ?thesis
      unfolding wpost by (auto simp: q)
  next
    case False
    from False pa [of "os @ ''(''"] show ?thesis
      unfolding wpost by (auto split: option.splits)
  qed
  from pre post show ?case by blast
qed

lemma str_total: "wf_type (type d) \<Longrightarrow> \<exists>out. str d = Some out"
proof -
  assume w: "wf_type (type d)"
  from write_total [OF w, of "[]"] obtain a where a: "write_pre (type d) [] = Some a"
    by fastforce
  from write_total [OF w, of "write_name (symbol d) a"] obtain b
    where b: "write_post (type d) (write_name (symbol d) a) = Some b"
    by fastforce
  show ?thesis
    by (simp only: str_def a b option.case) simp
qed

lemma wf_fresh:
  "ptr ty = None \<Longrightarrow> params ty = [] \<Longrightarrow> prim ty \<notin> {Function, Ptr, Ref, Array} \<Longrightarrow> wf_type ty"
  by (subst wf_type_iff) simp

lemma wf_pointer:
  "wf_type p \<Longrightarrow> params ty = [] \<Longrightarrow> prim ty \<in> {Function, Ptr, Ref, Array} \<Longrightarrow> ptr ty = Some p \<Longrightarrow> wf_type ty"
  by (subst wf_type_iff) simp

lemma wf_array_chain:
  "wf_type elem \<Longrightarrow> params ty = [] \<Longrightarrow> wf_type (array_chain ty ls elem)"
proof (induction ls arbitrary: ty)
  case Nil
  then show ?case by simp
next
  case (Cons l ls)
  have "wf_type (array_chain Type_default ls elem)"
    by (rule Cons.IH [OF Cons.prems(1)]) simp
  then show ?case
    by (simp only: array_chain.simps) (rule wf_pointer, simp_all add: Cons.prems)
qed

lemma read_prim_type_prim:
  "error (snd (read_prim_type st)) = [] \<Longrightarrow>
   fst (read_prim_type st) \<notin> {Function, Ptr, Ref, Array}"
  by (auto simp: read_prim_type_def prim_type_table_def split_beta Let_def
      split: option.splits if_splits)

lemma read_array_qualifiers_fresh:
  "ptr (fst (read_array_qualifiers ty st)) = ptr ty \<and>
   params (fst (read_array_qualifiers ty st)) = params ty"
  by (simp add: read_array_qualifiers_def Let_def)

lemma wf_read_var_type_all:
  "(\<forall>ty st r. ptr ty = None \<longrightarrow> params ty = [] \<longrightarrow> read_var_type n ty st = Some r \<longrightarrow>
       error (snd r) = [] \<longrightarrow> wf_type (fst r)) \<and>
   (\<forall>ps st r. (\<forall>q \<in> set ps. wf_type q) \<longrightarrow> read_fn_params n ps st = Some r \<longrightarrow>
       error (snd r) = [] \<longrightarrow> (\<forall>q \<in> set (fst r). wf_type q)) \<and>
   (\<forall>p ty st r. ptr ty = None \<longrightarrow> params ty = [] \<longrightarrow> p \<notin> {Function, Ptr, Ref, Array} \<longrightarrow>
       read_class n p ty st = Some r \<longrightarrow> error (snd r) = [] \<longrightarrow> wf_type (fst r)) \<and>
   (\<forall>ps st r. (\<forall>q \<in> set ps. wf_type q) \<longrightarrow> read_class_params n ps st = Some r \<longrightarrow>
       error (snd r) = [] \<longrightarrow> (\<forall>q \<in> set (fst r). wf_type q))"
proof (induction n)
  case 0
  show ?case by simp
next
  case (Suc n)
  from Suc have
    v: "\<And>ty st r. ptr ty = None \<Longrightarrow> params ty = [] \<Longrightarrow> read_var_type n ty st = Some r \<Longrightarrow>
          error (snd r) = [] \<Longrightarrow> wf_type (fst r)" and
    f: "\<And>ps st r. \<forall>q \<in> set ps. wf_type q \<Longrightarrow> read_fn_params n ps st = Some r \<Longrightarrow>
          error (snd r) = [] \<Longrightarrow> \<forall>q \<in> set (fst r). wf_type q" and
    k: "\<And>p ty st r. ptr ty = None \<Longrightarrow> params ty = [] \<Longrightarrow> p \<notin> {Function, Ptr, Ref, Array} \<Longrightarrow>
          read_class n p ty st = Some r \<Longrightarrow> error (snd r) = [] \<Longrightarrow> wf_type (fst r)" and
    m: "\<And>ps st r. \<forall>q \<in> set ps. wf_type q \<Longrightarrow> read_class_params n ps st = Some r \<Longrightarrow>
          error (snd r) = [] \<Longrightarrow> \<forall>q \<in> set (fst r). wf_type q"
    by blast+
  have V: "wf_type (fst r)"
    if pt: "ptr ty = None" and pa: "params ty = []" and e: "read_var_type (Suc n) ty st = Some r"
      and z: "error (snd r) = []" for ty st r
  proof -
    have pointer: "wf_type (fst r)"
      if "(case read_var_type n (set_sclass sc Type_default) s0 of
             None \<Rightarrow> None | Some (q, st4) \<Rightarrow> Some (set_ptr q (g ty), st4)) = Some r"
        and "prim (g ty) \<in> {Ptr, Ref}" and "params (g ty) = []" for sc s0 g
    proof -
      from that(1) obtain y where
        y: "read_var_type n (set_sclass sc Type_default) s0 = Some y"
        and r: "(case y of (q, st4) \<Rightarrow> Some (set_ptr q (g ty), st4)) = Some r"
        by (rule case_option_SomeE)
      from r have r': "r = (set_ptr (fst y) (g ty), snd y)"
        by (auto split: prod.splits)
      have "wf_type (fst y)"
        by (rule v [OF _ _ y]) (use z r' in simp_all)
      then show ?thesis
        unfolding r' fst_conv by (rule wf_pointer) (use that(2,3) in auto)
    qed
    show ?thesis
    proof (cases rule: rvt_shapes [of "input st"])
      case (T cs)
      from e have e': "read_class n UnionTy ty (st\<lparr>input := cs\<rparr>) = Some r"
        unfolding rvt_T [OF T] .
      show ?thesis by (rule k [OF pt pa _ e' z]) simp
    next
      case (U cs)
      from e have e': "read_class n Struct ty (st\<lparr>input := cs\<rparr>) = Some r"
        unfolding rvt_U [OF U] .
      show ?thesis by (rule k [OF pt pa _ e' z]) simp
    next
      case (V cs)
      from e have e': "read_class n Class ty (st\<lparr>input := cs\<rparr>) = Some r"
        unfolding rvt_V [OF V] .
      show ?thesis by (rule k [OF pt pa _ e' z]) simp
    next
      case (W4 cs)
      from e obtain y where y: "read_name n (st\<lparr>input := cs\<rparr>) = Some y"
        and r: "(case y of (v, st1) \<Rightarrow> Some (set_name v (set_prim Enum ty), st1)) = Some r"
        unfolding rvt_W4 [OF W4] by (rule case_option_SomeE)
      from r have "fst r = set_name (fst y) (set_prim Enum ty)"
        by (auto split: prod.splits)
      then show ?thesis
        by (simp add: wf_fresh pt pa)
    next
      case (P6A cs)
      from e obtain y where
        y: "read_var_type n Type_default (snd (alloc (snd (alloc (st\<lparr>input := cs\<rparr>))))) = Some y"
        and r: "(case y of (ret, st3) \<Rightarrow>
                  (case read_fn_params n [] st3 of
                     None \<Rightarrow> None
                   | Some (ps, st4) \<Rightarrow>
                       Some (set_ptr (set_params ps (set_ptr ret (set_prim Function Type_default)))
                               (set_prim Ptr ty), st4))) = Some r"
        unfolding rvt_P6A [OF P6A] by (rule case_option_SomeE)
      from r obtain w where w: "read_fn_params n [] (snd y) = Some w"
        and r': "r = (set_ptr (set_params (fst w) (set_ptr (fst y) (set_prim Function Type_default)))
                        (set_prim Ptr ty), snd w)"
        by (auto split: prod.splits option.splits)
      from z r' have zw: "error (snd w) = []" by simp
      have zy: "error (snd y) = []"
        by (rule error_kept_read_fn_params [OF w zw])
      have wy: "wf_type (fst y)"
        by (rule v [OF _ _ y zy]) simp_all
      have ww: "\<forall>q \<in> set (fst w). wf_type q"
        by (rule f [OF _ w zw]) simp
      have "wf_type (set_params (fst w) (set_ptr (fst y) (set_prim Function Type_default)))"
        by (subst wf_type_iff) (simp add: wy ww)
      then show ?thesis
        unfolding r' fst_conv by (rule wf_pointer) (simp_all add: pa)
    next
      case (A cs)
      from e show ?thesis unfolding rvt_A [OF A]
        by (rule pointer [where g = "set_prim Ref"]) (simp_all add: pa)
    next
      case (P cs)
      from e show ?thesis unfolding rvt_P [OF P]
        by (rule pointer [where g = "set_prim Ptr"]) (simp_all add: pa)
    next
      case (Q cs)
      from e show ?thesis unfolding rvt_Q [OF Q]
        by (rule pointer [where g = "\<lambda>t. set_sclass Const (set_prim Ptr t)"]) (simp_all add: pa)
    next
      case (Y cs)
      let ?st1 = "snd (read_number (st\<lparr>input := cs\<rparr>))"
      let ?d = "fst (read_number (st\<lparr>input := cs\<rparr>))"
      let ?ls = "fst (read_array_dims (nat (sint ?d)) ?st1)"
      let ?st2 = "snd (read_array_dims (nat (sint ?d)) ?st1)"
      let ?ty1 = "fst (read_array_qualifiers ty ?st2)"
      let ?st3 = "snd (read_array_qualifiers ty ?st2)"
      show ?thesis
      proof (cases "sint ?d \<le> 0")
        case True
        with e have "snd r = ?st1\<lparr>error := ''invalid array dimension: '' @ to_string (sint ?d)\<rparr>"
          unfolding rvt_Y [OF Y] by (auto simp: split_beta)
        with z show ?thesis by simp
      next
        case False
        with e obtain y where y: "read_var_type n Type_default ?st3 = Some y"
          and r': "r = (array_chain ?ty1 ?ls (fst y), snd y)"
          unfolding rvt_Y [OF Y] by (auto simp: split_beta Let_def split: option.splits)
        have "wf_type (fst y)"
          by (rule v [OF _ _ y]) (use z r' in simp_all)
        then show ?thesis
          unfolding r' fst_conv
          by (rule wf_array_chain) (simp add: read_array_qualifiers_fresh pa)
      qed
    next
      case prim
      from e have r': "r = (set_prim (fst (read_prim_type st)) ty, snd (read_prim_type st))"
        unfolding rvt_prim [OF prim] by (auto simp: split_beta)
      with z have "error (snd (read_prim_type st)) = []"
        by simp
      then have "fst (read_prim_type st) \<notin> {Function, Ptr, Ref, Array}"
        by (rule read_prim_type_prim)
      then show ?thesis
        unfolding r' fst_conv by (intro wf_fresh) (simp_all add: pt pa)
    qed
  qed
  have F: "\<forall>q \<in> set (fst r). wf_type q"
    if p: "\<forall>q \<in> set ps. wf_type q" and e: "read_fn_params (Suc n) ps st = Some r"
      and z: "error (snd r) = []" for ps st r
  proof -
    have "fst r = ps \<or>
          (\<exists>y. read_var_type n Type_default (snd (alloc st)) = Some y \<and>
               read_fn_params n (ps @ [fst y]) (snd y) = Some r)"
      using e by (auto split: if_splits option.splits)
    then show ?thesis
    proof (elim disjE exE conjE)
      fix y
      assume y: "read_var_type n Type_default (snd (alloc st)) = Some y"
        and w: "read_fn_params n (ps @ [fst y]) (snd y) = Some r"
      have "wf_type (fst y)"
        by (rule v [OF _ _ y error_kept_read_fn_params [OF w z]]) simp_all
      with p have "\<forall>q \<in> set (ps @ [fst y]). wf_type q" by simp
      then show ?thesis by (rule f [OF _ w z])
    qed (use p in simp)
  qed
  have K: "wf_type (fst r)"
    if pt: "ptr ty = None" and pa: "params ty = []" and q: "q \<notin> {Function, Ptr, Ref, Array}"
      and e: "read_class (Suc n) q ty st = Some r" and z: "error (snd r) = []" for q ty st r
  proof -
    have "(\<exists>y s. read_class_params n [] (snd (read_string (snd (consume ''?$'' st)))) = Some y \<and>
              r = (set_params (params ty @ fst y) (set_name (name ty @ [s]) (set_prim q ty)), snd y)) \<or>
          (\<exists>y. read_name n st = Some y \<and> fst r = set_name (fst y) (set_prim q ty))"
      using e by (auto simp: split_beta split: if_splits option.splits)
    then show ?thesis
    proof (elim disjE exE conjE)
      fix y s
      assume y: "read_class_params n [] (snd (read_string (snd (consume ''?$'' st)))) = Some y"
        and r': "r = (set_params (params ty @ fst y) (set_name (name ty @ [s]) (set_prim q ty)), snd y)"
      have "\<forall>q \<in> set (fst y). wf_type q"
        by (rule m [OF _ y]) (use z r' in simp_all)
      then show ?thesis
        unfolding r' fst_conv using q by (subst wf_type_iff) (simp add: pt pa)
    next
      fix y
      assume "read_name n st = Some y" and "fst r = set_name (fst y) (set_prim q ty)"
      then show ?thesis
        using q by (simp add: wf_fresh pt pa)
    qed
  qed
  have M: "\<forall>q \<in> set (fst r). wf_type q"
    if p: "\<forall>q \<in> set ps. wf_type q" and e: "read_class_params (Suc n) ps st = Some r"
      and z: "error (snd r) = []" for ps st r
  proof -
    have "fst r = ps \<or>
          (\<exists>y. read_var_type n Type_default (snd (alloc st)) = Some y \<and>
               read_class_params n (ps @ [fst y]) (snd y) = Some r)"
      using e by (auto split: if_splits option.splits)
    then show ?thesis
    proof (elim disjE exE conjE)
      fix y
      assume y: "read_var_type n Type_default (snd (alloc st)) = Some y"
        and w: "read_class_params n (ps @ [fst y]) (snd y) = Some r"
      have "wf_type (fst y)"
        by (rule v [OF _ _ y error_kept_read_class_params [OF w z]]) simp_all
      with p have "\<forall>q \<in> set (ps @ [fst y]). wf_type q" by simp
      then show ?thesis by (rule m [OF _ w z])
    qed (use p in simp)
  qed
  from V F K M show ?case by blast
qed

lemma wf_read_var_type:
  "read_var_type n ty st = Some r \<Longrightarrow> error (snd r) = [] \<Longrightarrow> ptr ty = None \<Longrightarrow> params ty = [] \<Longrightarrow>
   wf_type (fst r)"
  using wf_read_var_type_all [of n] by blast

lemma type_read_name_loop:
  "read_name_loop n v st = Some y \<Longrightarrow> type (snd y) = type st \<and> type_index (snd y) = type_index st"
proof (induction n arbitrary: v st)
  case 0
  then show ?case by simp
next
  case (Suc n)
  have a: "type (case read_name_pass v st of Inl r \<Rightarrow> snd r | Inr r \<Rightarrow> snd r) = type st \<and>
           type_index (case read_name_pass v st of Inl r \<Rightarrow> snd r | Inr r \<Rightarrow> snd r) = type_index st"
    by (auto simp: read_name_pass_def consume_def read_string_def Let_def split_beta
        split: option.splits)
  show ?case
  proof (cases "read_name_pass v st")
    case (Inl r)
    with Suc.prems a show ?thesis
      by (simp add: read_name_loop_pass del: read_name_loop.simps)
  next
    case (Inr r)
    with Suc.prems have "read_name_loop n (fst r) (snd r) = Some y"
      by (simp add: read_name_loop_pass split_beta del: read_name_loop.simps)
    from Suc.IH [OF this] a Inr show ?thesis by simp
  qed
qed

section \<open>What follows a variable\<close>

lemma type_read_name:
  "read_name n st = Some y \<Longrightarrow> type (snd y) = type st"
  unfolding read_name_def by (drule type_read_name_loop) simp

lemma parse_variable_prints:
  assumes sw: "startswith s ''?''"
    and rn: "read_name n (snd (consume ''?'' (Demangler_init s))) = Some (v, st2)"
    and c3: "fst (consume ''3'' (st2\<lparr>symbol := v\<rparr>))"
    and p: "parse n (Demangler_init s) = Some d"
    and z: "error d = []"
  shows "\<exists>out. str d = Some out"
proof -
  let ?a = "snd (consume ''3'' (st2\<lparr>symbol := v\<rparr>))"
  from p have pv: "parse_var n ?a = Some d"
    by (simp add: parse_mangled [OF sw] rn c3)
  then obtain q where q: "read_var_type n (type ?a) ?a = Some q"
    and d: "d = (snd q)\<lparr>type := fst q\<rparr>"
    by (auto simp: parse_var_def split: option.splits)
  from z d have zq: "error (snd q) = []" by simp
  have "type st2 = Type_default"
    using type_read_name [OF rn] by (simp add: consume_def Demangler_init_def)
  then have t: "type ?a = Type_default"
    by (simp add: consume_def)
  have "wf_type (fst q)"
    by (rule wf_read_var_type [OF q zq]) (simp_all add: t)
  then have "wf_type (type d)"
    by (simp add: d)
  then show ?thesis
    by (rule str_total)
qed

lemma variable_rest:
  assumes a: "is_variable_symbol n s"
    and p: "parse n (Demangler_init s) = Some d"
    and z: "error d = []"
  shows "parse n (Demangler_init (s @ r)) = Some (more_input r d)"
    and "\<exists>out. demangle n s = Some (Inr out) \<and> demangle n (s @ r) = Some (Inr out)"
proof -
  from a obtain v st2 where sw: "startswith s ''?''"
    and rn: "read_name n (snd (consume ''?'' (Demangler_init s))) = Some (v, st2)"
    and c3: "fst (consume ''3'' (st2\<lparr>symbol := v\<rparr>))"
    by (auto simp: is_variable_symbol_def split: option.splits)
  show m: "parse n (Demangler_init (s @ r)) = Some (more_input r d)"
    by (rule parse_variable_more [OF sw rn c3 p z])
  from parse_variable_prints [OF sw rn c3 p z] obtain out where o: "str d = Some out"
    by blast
  have "demangle n s = Some (Inr out)"
    using p z o by (simp add: demangle_def)
  moreover have "demangle n (s @ r) = Some (Inr out)"
    using m z o by (simp add: demangle_def str_more_input)
  ultimately show "\<exists>out. demangle n s = Some (Inr out) \<and> demangle n (s @ r) = Some (Inr out)"
    by blast
qed

lemma variable_example:
  assumes a: "is_variable_symbol n s"
    and e: "map_option error (parse n (Demangler_init s)) = Some []"
    and x: "demangle n s = Some x"
  shows "demangle (n + k) (s @ r) = Some x"
proof -
  from e obtain d where d: "parse n (Demangler_init s) = Some d" and z: "error d = []"
    by (cases "parse n (Demangler_init s)") auto
  from variable_rest(2) [OF a d z, of r] x have "demangle n (s @ r) = Some x"
    by auto
  then show ?thesis
    by (rule demangle_fuel) simp
qed

text \<open>
  A variable symbol on which the parser never returns: the class name \<open>a\<close> of \<open>?x@@3Ua\<close>
  has no \<open>@\<close>.
\<close>

lemma read_name_Suc_Suc_x:
  "read_name (Suc (Suc m)) (Demangler_init ''x@@3Ua'')
     = Some ([''x''], Demangler_init ''3Ua''\<lparr>repeated_names := [''x'']\<rparr>)"
  by (simp add: read_name_def Demangler_init_def consume_def startswith_def is_digit_def
      char_int_def read_string_def trim_def Let_def)

lemma read_var_type_Ua:
  "input st = ''Ua'' \<Longrightarrow> read_var_type n ty st = None"
proof (cases n)
  case 0
  then show ?thesis by simp
next
  case (Suc m)
  assume i: "input st = ''Ua''"
  have d: "\<not> is_digit (CHR ''a'')"
    by (simp add: is_digit_def char_int_def)
  have rn: "read_name k (st\<lparr>input := ''a''\<rparr>) = None" for k
    unfolding read_name_def
    by (rule read_name_loop_diverges) (simp_all add: d)
  have c: "\<not> fst (consume ''?$'' (st\<lparr>input := ''a''\<rparr>))"
    by (simp add: consume_def startswith_def)
  have "read_class m Struct ty (st\<lparr>input := ''a''\<rparr>) = None"
    by (cases m) (simp_all add: c rn)
  then show ?thesis
    unfolding Suc rvt_U [OF i] .
qed

lemma demangle_Ua: "demangle n ''?x@@3Ua'' = None"
proof -
  consider "n = 0" | "n = 1" | m where "n = Suc (Suc m)"
    by (cases n; cases "n - 1") auto
  then have "parse n (Demangler_init ''?x@@3Ua'') = None"
  proof cases
    case 1
    then show ?thesis by (simp add: parse_question read_name_def)
  next
    case 2
    have "read_name 1 (Demangler_init ''x@@3Ua'') = None"
      by code_simp
    with 2 show ?thesis by (simp add: parse_question)
  next
    case (3 m)
    have "parse_var n (Demangler_init ''Ua''\<lparr>repeated_names := [''x''], symbol := [''x'']\<rparr>) = None"
      by (simp add: parse_var_def read_var_type_Ua Demangler_init_def)
    then show ?thesis
      unfolding parse_question 3 read_name_Suc_Suc_x
      by (simp add: consume_def startswith_def trim_def Demangler_init_def)
  qed
  then show ?thesis
    by (simp add: demangle_def)
qed

lemma variable_Ua: "is_variable_symbol (Suc (Suc n)) ''?x@@3Ua''"
proof -
  have "snd (consume ''?'' (Demangler_init ''?x@@3Ua'')) = Demangler_init ''x@@3Ua''"
    by (simp add: consume_def startswith_def trim_def Demangler_init_def)
  then show ?thesis
    by (simp add: is_variable_symbol_def read_name_Suc_Suc_x)
       (simp add: startswith_def consume_def Demangler_init_def)
qed

text \<open>
  Claim C10, as the code has it. Let \<open>s\<close> be a variable symbol, a mangled name whose body
  begins with \<open>3\<close>, that \<open>parse\<close> takes to its end without an error and
  \<open>in_type_buffer\<close>. Then with any bytes \<open>r\<close> behind it \<open>parse\<close> ends in the same state,
  except that the cursor still holds \<open>r\<close> behind what it held: the bytes are not read and
  set no error, and \<open>demangle\<close> succeeds on \<open>s\<close> and on \<open>s @ r\<close> with the same
  declaration. So \<open>?x@@3H\<close> followed by any bytes is \<open>int x\<close>, and likewise for a pointer,
  an enum, a class, a template, an array and a function pointer. The condition that
  \<open>parse\<close> comes to its end is needed: on the variable symbol \<open>?x@@3Ua\<close> it does not.
\<close>

theorem variable_rest_ignored:
  "(is_variable_symbol n s \<and> parse n (Demangler_init s) = Some d \<and> error d = [] \<and>
    in_type_buffer d \<longrightarrow>
      parse n (Demangler_init (s @ r)) = Some (d\<lparr>input := input d @ r\<rparr>) \<and>
      (\<exists>out. demangle n s = Some (Inr out) \<and> demangle n (s @ r) = Some (Inr out))) \<and>
   demangle (5 + k) (''?x@@3H'' @ r) = Some (Inr ''int x'') \<and>
   demangle (5 + k) (''?x@@3PBD'' @ r) = Some (Inr ''char const*x'') \<and>
   demangle (5 + k) (''?x@@3W4E@@'' @ r) = Some (Inr ''enum E x'') \<and>
   demangle (5 + k) (''?x@@3VC@@'' @ r) = Some (Inr ''class C x'') \<and>
   demangle (6 + k) (''?x@@3V?$T@H@@'' @ r) = Some (Inr ''class T<int>x'') \<and>
   demangle (6 + k) (''?x@@3PAY01H'' @ r) = Some (Inr ''int(*x)[2]'') \<and>
   demangle (6 + k) (''?x@@3P6AHH@Z'' @ r) = Some (Inr ''int(*x)(int)'') \<and>
   is_variable_symbol (Suc (Suc n)) ''?x@@3Ua'' \<and> demangle n ''?x@@3Ua'' = None"
proof -
  have g: "parse n (Demangler_init (s @ r)) = Some (d\<lparr>input := input d @ r\<rparr>) \<and>
      (\<exists>out. demangle n s = Some (Inr out) \<and> demangle n (s @ r) = Some (Inr out))"
    if "is_variable_symbol n s" "parse n (Demangler_init s) = Some d" "error d = []"
    using variable_rest [OF that, of r] by (simp add: more_input_def)
  have 1: "demangle (5 + k) (''?x@@3H'' @ r) = Some (Inr ''int x'')"
    by (rule variable_example; code_simp)
  have 2: "demangle (5 + k) (''?x@@3PBD'' @ r) = Some (Inr ''char const*x'')"
    by (rule variable_example; code_simp)
  have 3: "demangle (5 + k) (''?x@@3W4E@@'' @ r) = Some (Inr ''enum E x'')"
    by (rule variable_example; code_simp)
  have 4: "demangle (5 + k) (''?x@@3VC@@'' @ r) = Some (Inr ''class C x'')"
    by (rule variable_example; code_simp)
  have 5: "demangle (6 + k) (''?x@@3V?$T@H@@'' @ r) = Some (Inr ''class T<int>x'')"
    by (rule variable_example; code_simp)
  have 6: "demangle (6 + k) (''?x@@3PAY01H'' @ r) = Some (Inr ''int(*x)[2]'')"
    by (rule variable_example; code_simp)
  have 7: "demangle (6 + k) (''?x@@3P6AHH@Z'' @ r) = Some (Inr ''int(*x)(int)'')"
    by (rule variable_example; code_simp)
  note 8 = variable_Ua [of n] demangle_Ua [of n]
  from g 1 2 3 4 5 6 7 8 show ?thesis by blast
qed

theorem variable_rest_ignored_witness:
  "is_variable_symbol 5 ''?x@@3H'' \<and>
   map_option (\<lambda>d. (error d, type_index d, input d)) (parse 5 (Demangler_init ''?x@@3H''))
     = Some ([], 0, []) \<and>
   demangle 5 ''?x@@3H'' = Some (Inr ''int x'') \<and>
   demangle 5 ''?x@@3HA'' = Some (Inr ''int x'') \<and>
   map_option input (parse 5 (Demangler_init ''?x@@3HA'')) = Some ''A''"
proof -
  have a: "is_variable_symbol 5 ''?x@@3H''"
    by code_simp
  have b: "map_option (\<lambda>d. (error d, type_index d, input d)) (parse 5 (Demangler_init ''?x@@3H''))
             = Some ([], 0, [])"
    by code_simp
  have c: "demangle 5 ''?x@@3H'' = Some (Inr ''int x'')"
    by code_simp
  from b obtain d where d: "parse 5 (Demangler_init ''?x@@3H'') = Some d"
    and e: "error d = []" and j: "input d = []" and t: "type_index d = 0"
    by (cases "parse 5 (Demangler_init ''?x@@3H'')") auto
  have i: "in_type_buffer d"
    using t by (simp add: in_type_buffer_def)
  have "parse 5 (Demangler_init (''?x@@3H'' @ ''A'')) = Some (d\<lparr>input := input d @ ''A''\<rparr>) \<and>
      (\<exists>out. demangle 5 ''?x@@3H'' = Some (Inr out) \<and>
             demangle 5 (''?x@@3H'' @ ''A'') = Some (Inr out))"
    using variable_rest_ignored [of 5 "''?x@@3H''" d "''A''"] a d e i by blast
  with c j have "demangle 5 ''?x@@3HA'' = Some (Inr ''int x'')"
    and "map_option input (parse 5 (Demangler_init ''?x@@3HA'')) = Some ''A''"
    by auto
  with a b c show ?thesis by simp
qed

text \<open>
  Without the condition on the type the bytes that follow are not ignored. \<open>?x@@3L\<close> is
  a variable symbol, \<open>L\<close> is no type, and \<open>demangle\<close> fails on it; with an \<open>A\<close> behind it
  the message that \<open>demangle\<close> returns is another one: it holds the \<open>A\<close>.
\<close>

theorem variable_rest_in_error_message:
  "is_variable_symbol 5 ''?x@@3L'' \<and>
   demangle 5 ''?x@@3L'' = Some (Inl ''unknown primitive type: L'') \<and>
   demangle 5 ''?x@@3LA'' = Some (Inl ''unknown primitive type: LA'') \<and>
   map_option type_index (parse 5 (Demangler_init ''?x@@3LA'')) = Some 0"
  by code_simp

declare printer_simps [simp]

section \<open>Concrete symbols\<close>

text \<open>
  The results below hold with every fuel from the stated one on (\<open>k\<close> is arbitrary).
\<close>

text \<open>
  Claim C1. The input \<open>x@@3H\<close> does not begin with \<open>?\<close>. \<open>parse\<close> stores it as the symbol
  and sets \<open>Unknown\<close>, then reads a name and a variable type from it all the same: the
  result is the declaration \<open>int x\<close>, not the input.
\<close>

theorem demangle_unmangled_input:
  "demangle (5 + k) ''x@@3H'' = Some (Inr ''int x'')"
proof -
  have "demangle 5 ''x@@3H'' = Some (Inr ''int x'')"
    by code_simp
  then show ?thesis
    by (rule demangle_fuel) simp
qed

text \<open>
  Claim C3. A free function with a return type and twenty parameters takes 21 nodes from
  \<open>alloc\<close>. \<open>type_index\<close> ends at 21, so the last node is the slot of index 20, which
  \<open>type_buffer\<close> does not have, and \<open>type_buffer2\<close> is still empty.
\<close>

theorem alloc_past_type_buffer:
  "map_option (\<lambda>d. (type_index d, type_buffer2 d, error d))
     (parse (25 + k) (Demangler_init ''?f@@YAHHHHHHHHHHHHHHHHHHHHH@Z'')) = Some (21, [], []) \<and>
   fst (alloc (st\<lparr>type_index := 20\<rparr>)) = 20 \<and>
   type_buffer_slot 20 = None"
proof -
  let ?p = "parse 25 (Demangler_init ''?f@@YAHHHHHHHHHHHHHHHHHHHHH@Z'')"
  have c: "map_option (\<lambda>d. (type_index d, type_buffer2 d, error d)) ?p = Some (21, [], [])"
    by code_simp
  then obtain d where d: "?p = Some d"
    by (cases ?p) auto
  have "parse (25 + k) (Demangler_init ''?f@@YAHHHHHHHHHHHHHHHHHHHHH@Z'') = Some d"
    by (rule parse_fuel [OF d]) simp
  with c d show ?thesis
    by (simp add: alloc_def type_buffer_slot_def type_buffer_size_def)
qed

text \<open>
  Claim C5, as the code has it. The symbol \<open>?g@@YAPAHH@Z\<close> demangles to \<open>int*g(int)\<close>:
  the printer writes \<open>*\<close> with no space before it, and \<open>write_space\<close> adds none after
  it, since \<open>*\<close> is not a letter.
\<close>

theorem demangle_g:
  "demangle (5 + k) ''?g@@YAPAHH@Z'' = Some (Inr ''int*g(int)'')"
proof -
  have "demangle 5 ''?g@@YAPAHH@Z'' = Some (Inr ''int*g(int)'')"
    by code_simp
  then show ?thesis
    by (rule demangle_fuel) simp
qed

text \<open>The result is not the string \<open>int * g(int)\<close> of the specification.\<close>

theorem demangle_g_not_spaced:
  "demangle 5 ''?g@@YAPAHH@Z'' \<noteq> Some (Inr ''int * g(int)'')"
  by code_simp

text \<open>
  Claim C9. The symbol \<open>??0A@@QAE@XZ\<close> demangles to \<open>A::A(void)\<close>. In general
  \<open>write_name\<close>, on a name whose first fragment is \<open>?0\<close> followed by \<open>cls\<close>, writes the
  enclosing scopes and then \<open>cls::cls\<close>.
\<close>

theorem demangle_constructor:
  "demangle (5 + k) ''??0A@@QAE@XZ'' = Some (Inr ''A::A(void)'') \<and>
   write_name ((''?0'' @ cls) # scopes) os
     = write_name_loop (length scopes) ((''?0'' @ cls) # scopes) (write_space os)
         @ cls @ ''::'' @ cls"
proof -
  have "demangle 5 ''??0A@@QAE@XZ'' = Some (Inr ''A::A(void)'')"
    by code_simp
  then have "demangle (5 + k) ''??0A@@QAE@XZ'' = Some (Inr ''A::A(void)'')"
    by (rule demangle_fuel) simp
  then show ?thesis
    by (simp add: write_name_def startswith_def substr2_def)
qed

end
